theory Spec2Isabelle
  imports Complex_Main "HOL-Library.Word"
begin

unbundle bit_operations_syntax

section \<open>Data model of firmware/main.c\<close>

type_synonym u8 = "8 word"

datatype batt_t = BATT_OK | BATT_DOCHECK | BATT_LOWWARN | BATT_LOW

datatype btn_t = BTN_NOTPRESSED | BTN_PRESSED | BTN_DEBOUNCING

datatype state_t = STATE_IDLE | STATE_ROLL | STATE_ROLLDONE | STATE_STEADY

text \<open>C integer division truncates towards zero.\<close>

definition cdiv :: "int \<Rightarrow> int \<Rightarrow> int" where
  "cdiv a b = sgn a * sgn b * (\<bar>a\<bar> div \<bar>b\<bar>)"

definition VLOWBATT :: int where
  "VLOWBATT = 2400"

definition VREF :: int where
  "VREF = 1100"

text \<open>\<^verbatim>\<open>#define LOWBATT_VAL (VREF / (VLOWBATT / 255))\<close>\<close>

definition LOWBATT_VAL :: int where
  "LOWBATT_VAL = cdiv VREF (cdiv VLOWBATT 255)"

text \<open>
  \<^verbatim>\<open>#define TMR_MS(ms) ((uint8_t)((ms / 16) + 0.5))\<close>: the argument is an integer
  literal, so \<^verbatim>\<open>ms / 16\<close> is an integer division; adding 0.5 makes it a double, and the
  cast truncates it towards zero (\<open>ctrunc\<close>) to a byte.
\<close>

definition ctrunc :: "real \<Rightarrow> int" where
  "ctrunc v = (if v < 0 then - floor (- v) else floor v)"

definition TMR_MS :: "int \<Rightarrow> u8" where
  "TMR_MS ms = word_of_int (ctrunc (real_of_int (cdiv ms 16) + 1 / 2))"

text \<open>Bit numbers of port B as avr/io.h gives them, and \<^verbatim>\<open>_BV(n) = 1 << n\<close>.\<close>

definition PORTB0 :: nat where "PORTB0 = 0"
definition PORTB1 :: nat where "PORTB1 = 1"
definition PORTB2 :: nat where "PORTB2 = 2"
definition PORTB3 :: nat where "PORTB3 = 3"
definition PORTB4 :: nat where "PORTB4 = 4"

definition BV :: "nat \<Rightarrow> u8" where
  "BV n = push_bit n 1"

definition portVals :: "u8 list" where
  "portVals =
    [0,
     BV PORTB4,
     BV PORTB1,
     BV PORTB1 OR BV PORTB4,
     BV PORTB1 OR BV PORTB2,
     BV PORTB1 OR BV PORTB2 OR BV PORTB4,
     BV PORTB0 OR BV PORTB1 OR BV PORTB2]"

definition rollDelays :: "u8 list" where
  "rollDelays = [0, TMR_MS 50, TMR_MS 100, TMR_MS 200, TMR_MS 400]"

definition ROLLDELAY_COUNT :: nat where
  "ROLLDELAY_COUNT = length rollDelays"

text \<open>The four static bytes of \<^verbatim>\<open>genRandom\<close>.\<close>

record rng_t =
  rng_x :: u8
  rng_y :: u8
  rng_z :: u8
  rng_a :: u8

definition rng_seed :: rng_t where
  "rng_seed = \<lparr>rng_x = 0, rng_y = 0, rng_z = 0, rng_a = 86\<rparr>"

text \<open>
  The variables of \<^verbatim>\<open>main\<close>, the generator's statics, the output register PORTB, whether
  the watchdog (the periodic tick source) is running, and the log of the calls of
  \<^verbatim>\<open>diceSet\<close> so far, oldest first: the value of \<^verbatim>\<open>now\<close> at the call and the face
  handed over.
\<close>

record dice =
  now :: u8
  timer :: u8
  state :: state_t
  lowBatt :: batt_t
  rollResult :: u8
  nextRollChangeDelay :: u8
  btnPressState :: btn_t
  btnReleasedTime :: u8
  blinkCount :: u8
  blinkState :: u8
  rng :: rng_t
  PORTB :: u8
  wdt_on :: bool
  shown :: "(u8 \<times> u8) list"

text \<open>
  What the hardware answers during one pass of the main loop: \<^verbatim>\<open>WDT_TIMEDOUT()\<close> at the
  top, \<^verbatim>\<open>BTN_ISPRESSED()\<close> of the debouncer, the byte \<^verbatim>\<open>battLevel()\<close> would return, and
  the two reads of the sleep decision.
\<close>

record hw_in =
  wdt_timedout :: bool
  btn_pressed :: bool
  adc :: u8
  wdt_timedout_sleep :: bool
  btn_pressed_sleep :: bool

section \<open>Operations\<close>

text \<open>\<^verbatim>\<open>genRandom\<close>: returns the new \<^verbatim>\<open>a\<close> and the updated statics.\<close>

definition genRandom :: "rng_t \<Rightarrow> u8 \<times> rng_t" where
  "genRandom g =
    (let t = rng_x g XOR push_bit 4 (rng_x g);
         x' = rng_y g;
         y' = rng_z g;
         z' = rng_a g;
         a' = z' XOR t XOR drop_bit 1 z' XOR push_bit 1 t
     in (a', \<lparr>rng_x = x', rng_y = y', rng_z = z', rng_a = a'\<rparr>))"

text \<open>The wrap-safe comparison \<^verbatim>\<open>(uint8_t)(now - ref) >= thr\<close>.\<close>

definition elapsed :: "u8 \<Rightarrow> u8 \<Rightarrow> u8 \<Rightarrow> bool" where
  "elapsed n ref thr \<longleftrightarrow> thr \<le> n - ref"

text \<open>Reading a C array: an index past the end is undefined behaviour, here \<open>None\<close>.\<close>

definition at_index :: "u8 list \<Rightarrow> u8 \<Rightarrow> u8 option" where
  "at_index tab i = (if unat i < length tab then Some (tab ! unat i) else None)"

definition led_mask :: u8 where
  "led_mask = BV PORTB0 OR BV PORTB1 OR BV PORTB2 OR BV PORTB4"

text \<open>\<^verbatim>\<open>diceSet\<close>: \<^verbatim>\<open>PORTB = (PORTB & ~mask) | portVals[val]\<close>.\<close>

definition diceSet :: "u8 \<Rightarrow> dice \<Rightarrow> dice option" where
  "diceSet val s =
    (case at_index portVals val of
       None \<Rightarrow> None
     | Some pv \<Rightarrow> Some (s\<lparr>PORTB := (PORTB s AND NOT led_mask) OR pv, shown := shown s @ [(now s, val)]\<rparr>))"

text \<open>Lines 161-165: the watchdog tick, which also re-arms the watchdog.\<close>

definition wdt_tick :: "hw_in \<Rightarrow> dice \<Rightarrow> dice" where
  "wdt_tick i s = (if wdt_timedout i then s\<lparr>now := now s + 1, wdt_on := True\<rparr> else s)"

text \<open>Lines 167-189: the button and its debouncing.\<close>

definition button_update :: "hw_in \<Rightarrow> dice \<Rightarrow> dice" where
  "button_update i s =
    (if btn_pressed i then
       (let s1 = (if btnPressState s = BTN_NOTPRESSED
                  then s\<lparr>timer := now s, blinkCount := 0, blinkState := 0\<rparr> else s)
        in s1\<lparr>btnPressState := BTN_PRESSED, nextRollChangeDelay := 1, state := STATE_ROLL\<rparr>)
     else if btnPressState s = BTN_PRESSED then
       s\<lparr>btnReleasedTime := now s, btnPressState := BTN_DEBOUNCING\<rparr>
     else if elapsed (now s) (btnReleasedTime s) (TMR_MS 50) then
       s\<lparr>btnPressState := BTN_NOTPRESSED\<rparr>
     else s)"

text \<open>Lines 191-192: the battery check; the byte is compared as an \<^verbatim>\<open>int\<close>.\<close>

definition batt_check :: "hw_in \<Rightarrow> dice \<Rightarrow> dice" where
  "batt_check i s =
    (if lowBatt s = BATT_DOCHECK
     then s\<lparr>lowBatt := (if uint (adc i) > LOWBATT_VAL then BATT_LOWWARN else BATT_OK)\<rparr>
     else s)"

text \<open>Lines 196-214: the low-battery blinking.\<close>

definition warn_blink :: "dice \<Rightarrow> dice option" where
  "warn_blink s =
    (if elapsed (now s) (timer s) (TMR_MS 32) then
       (let s1 = s\<lparr>timer := now s, blinkState := (if blinkState s = 0 then 1 else 0)\<rparr>
        in if blinkState s1 = 0 then diceSet 1 s1
           else Option.bind (diceSet 0 s1) (\<lambda>s2.
             let s3 = s2\<lparr>blinkCount := blinkCount s2 + 1\<rparr>
             in Some (if blinkCount s3 > 5
                      then s3\<lparr>blinkCount := 0, blinkState := 0, lowBatt := BATT_LOW\<rparr>
                      else s3)))
     else Some s)"

text \<open>Line 226: \<^verbatim>\<open>(genRandom() % 6) + 1\<close>, computed on \<^verbatim>\<open>int\<close> and stored in a byte.\<close>

definition roll_of :: "u8 \<Rightarrow> u8" where
  "roll_of r = word_of_nat (unat r mod 6 + 1)"

text \<open>Lines 218-236: one step of the rolling animation.\<close>

definition roll_step :: "dice \<Rightarrow> dice option" where
  "roll_step s =
    (case at_index rollDelays (nextRollChangeDelay s) of
       None \<Rightarrow> None
     | Some d \<Rightarrow>
        if elapsed (now s) (timer s) d then
          (let s1 = s\<lparr>timer := now s, nextRollChangeDelay := nextRollChangeDelay s + 1\<rparr>
           in if ROLLDELAY_COUNT \<le> unat (nextRollChangeDelay s1) then
                (let (r, g) = genRandom (rng s1);
                     s2 = s1\<lparr>state := STATE_ROLLDONE, rng := g,
                             rollResult := roll_of r\<rparr>
                 in diceSet (rollResult s2) s2)
              else
                (let s2 = s1\<lparr>rollResult := rollResult s1 + 1\<rparr>;
                     s3 = (if rollResult s2 > 6 then s2\<lparr>rollResult := 1\<rparr> else s2)
                 in diceSet (rollResult s3) s3))
        else Some s)"

text \<open>Lines 240-261: blinking the result.\<close>

definition roll_done :: "dice \<Rightarrow> dice option" where
  "roll_done s =
    (if blinkState s = 0 \<or> elapsed (now s) (timer s) (blinkState s) then
       (let s1 = s\<lparr>timer := now s\<rparr>
        in if blinkState s1 = TMR_MS 200 then diceSet 0 (s1\<lparr>blinkState := TMR_MS 50\<rparr>)
           else Option.bind (diceSet (rollResult s1) (s1\<lparr>blinkState := TMR_MS 200\<rparr>)) (\<lambda>s2.
             let s3 = s2\<lparr>blinkCount := blinkCount s2 + 1\<rparr>
             in Some (if blinkCount s3 > 3
                      then s3\<lparr>blinkCount := 0, blinkState := 0, state := STATE_STEADY\<rparr>
                      else s3)))
     else Some s)"

text \<open>Lines 265-269: holding the result.\<close>

definition steady :: "dice \<Rightarrow> dice option" where
  "steady s =
    (if elapsed (now s) (timer s) (TMR_MS 2000)
     then Option.bind (diceSet 0 s) (\<lambda>s1. Some (s1\<lparr>state := STATE_IDLE\<rparr>))
     else Some s)"

text \<open>Lines 194-270: the chain of mutually exclusive branches.\<close>

definition display_update :: "dice \<Rightarrow> dice option" where
  "display_update s =
    (if lowBatt s = BATT_LOWWARN then warn_blink s
     else if state s = STATE_ROLL then roll_step s
     else if state s = STATE_ROLLDONE then roll_done s
     else if state s = STATE_STEADY then steady s
     else Some s)"

text \<open>
  Lines 272-288: the sleep decision. Sleeping itself changes no variable; only
  \<^verbatim>\<open>wdt_disable()\<close> and the request for a battery check do.
\<close>

definition fully_idle :: "hw_in \<Rightarrow> dice \<Rightarrow> bool" where
  "fully_idle i s \<longleftrightarrow>
     \<not> btn_pressed_sleep i \<and> btnPressState s = BTN_NOTPRESSED \<and> state s = STATE_IDLE
     \<and> lowBatt s \<noteq> BATT_LOWWARN"

definition sleep_update :: "hw_in \<Rightarrow> dice \<Rightarrow> dice" where
  "sleep_update i s =
    (if \<not> wdt_timedout_sleep i then
       (if fully_idle i s then s\<lparr>wdt_on := False, lowBatt := BATT_DOCHECK\<rparr> else s)
     else s)"

text \<open>Lines 161-270, everything of one pass before the sleep decision.\<close>

definition loop_logic :: "hw_in \<Rightarrow> dice \<Rightarrow> dice option" where
  "loop_logic i s = display_update (batt_check i (button_update i (wdt_tick i s)))"

text \<open>One pass of \<^verbatim>\<open>while(1)\<close>.\<close>

definition loop_body :: "hw_in \<Rightarrow> dice \<Rightarrow> dice option" where
  "loop_body i s = map_option (sleep_update i) (loop_logic i s)"

text \<open>The loop never ends; \<open>run\<close> is its first passes, one per element of the input list.\<close>

fun run :: "hw_in list \<Rightarrow> dice \<Rightarrow> dice option" where
  "run [] s = Some s"
| "run (i # is) s = Option.bind (loop_body i s) (run is)"

text \<open>
  Lines 133-134: \<^verbatim>\<open>for(uint8_t i=0;i<battLevel();i++) genRandom();\<close> where
  \<open>samples k\<close> is what the \<open>k\<close>-th call of \<^verbatim>\<open>battLevel\<close> returns (the call with
  \<^verbatim>\<open>i = k\<close>).
\<close>

function warmup :: "(nat \<Rightarrow> u8) \<Rightarrow> u8 \<Rightarrow> rng_t \<Rightarrow> rng_t" where
  "warmup samples i g =
    (if i < samples (unat i) then warmup samples (i + 1) (snd (genRandom g)) else g)"
  by pat_completeness auto
termination
proof (relation "measure (\<lambda>(samples, i, g). 255 - unat i)")
  show "wf (measure (\<lambda>(samples, i, g). 255 - unat i))" by simp
next
  fix samples :: "nat \<Rightarrow> u8" and i :: u8 and g :: rng_t
  assume "i < samples (unat i)"
  then have lt: "unat i < unat (samples (unat i))" by (simp add: word_less_nat_alt)
  have "unat (samples (unat i)) < 256" using unsigned_less [of "samples (unat i)"] by simp
  with lt have "unat i < 255" by simp
  then have "unat (i + 1) = unat i + 1" by (simp add: unat_word_ariths)
  with \<open>unat i < 255\<close>
  show "((samples, i + 1, snd (genRandom g)), (samples, i, g))
          \<in> measure (\<lambda>(samples, i, g). 255 - unat i)"
    by simp
qed

text \<open>
  The state in which \<^verbatim>\<open>main\<close> enters its loop: \<open>p0\<close> is PORTB at reset and \<open>g\<close>
  the generator after the warm-up.
\<close>

definition main_init :: "u8 \<Rightarrow> rng_t \<Rightarrow> dice" where
  "main_init p0 g =
    \<lparr>now = 0, timer = 0, state = STATE_IDLE, lowBatt = BATT_DOCHECK, rollResult = 0,
     nextRollChangeDelay = 0, btnPressState = BTN_NOTPRESSED, btnReleasedTime = 0,
     blinkCount = 0, blinkState = 0, rng = g, PORTB = p0 OR BV PORTB3, wdt_on = True,
     shown = []\<rparr>"

definition main_start :: "u8 \<Rightarrow> (nat \<Rightarrow> u8) \<Rightarrow> dice" where
  "main_start p0 samples = main_init p0 (warmup samples 0 rng_seed)"

section \<open>Inputs and states of the example runs\<close>

text \<open>
  A pass of the loop in which no tick is pending at the sleep decision and the button does
  not change during the pass.
\<close>

definition hw :: "bool \<Rightarrow> bool \<Rightarrow> u8 \<Rightarrow> hw_in" where
  "hw tick btn sample = \<lparr>wdt_timedout = tick, btn_pressed = btn, adc = sample,
     wdt_timedout_sleep = False, btn_pressed_sleep = btn\<rparr>"

text \<open>The number of passes of the loop that see a watchdog tick.\<close>

definition ticks :: "hw_in list \<Rightarrow> nat" where
  "ticks ins = length (filter wdt_timedout ins)"

text \<open>The start state with the button already taken as pressed.\<close>

definition pressed0 :: dice where
  "pressed0 = (main_init 0 rng_seed)\<lparr>btnPressState := BTN_PRESSED, state := STATE_ROLL,
     nextRollChangeDelay := 1\<rparr>"

text \<open>The start state with the battery already found low and the warning over.\<close>

definition low0 :: dice where
  "low0 = (main_init 0 rng_seed)\<lparr>lowBatt := BATT_LOW\<rparr>"

text \<open>
  The state 47 passes after the start, when the button was read pressed in the first pass
  only, a tick came on every pass and the battery sample was 0: the roll has just drawn its
  result.
\<close>

definition settling0 :: dice where
  "settling0 =
    \<lparr>now = 47, timer = 47, state = STATE_ROLLDONE, lowBatt = BATT_OK, rollResult = 6,
     nextRollChangeDelay = 5, btnPressState = BTN_NOTPRESSED, btnReleasedTime = 2,
     blinkCount = 0, blinkState = 0,
     rng = \<lparr>rng_x = 0, rng_y = 0, rng_z = 86, rng_a = 125\<rparr>, PORTB = 15, wdt_on = True,
     shown = [(4, 1), (10, 2), (22, 3), (47, 6)]\<rparr>"

section \<open>The generator as a linear map\<close>

text \<open>The generator seen as a map on its state, and its first outputs.\<close>

definition rng_step :: "rng_t \<Rightarrow> rng_t" where
  "rng_step g = snd (genRandom g)"

fun rng_outputs :: "nat \<Rightarrow> rng_t \<Rightarrow> u8 list" where
  "rng_outputs 0 g = []"
| "rng_outputs (Suc n) g = fst (genRandom g) # rng_outputs n (snd (genRandom g))"

text \<open>
  The state as a vector of 32 bits with bitwise exclusive or, on which the generator is
  linear.
\<close>

definition rzero :: rng_t where
  "rzero = \<lparr>rng_x = 0, rng_y = 0, rng_z = 0, rng_a = 0\<rparr>"

definition rxor :: "rng_t \<Rightarrow> rng_t \<Rightarrow> rng_t" where
  "rxor g h = \<lparr>rng_x = rng_x g XOR rng_x h, rng_y = rng_y g XOR rng_y h,
     rng_z = rng_z g XOR rng_z h, rng_a = rng_a g XOR rng_a h\<rparr>"

definition linear_map :: "(rng_t \<Rightarrow> rng_t) \<Rightarrow> bool" where
  "linear_map f \<longleftrightarrow> f rzero = rzero \<and> (\<forall>g h. f (rxor g h) = rxor (f g) (f h))"

text \<open>
  \<open>period_of f x p\<close>: the sequence \<open>x, f x, f (f x), \<dots>\<close> comes back to \<open>x\<close> after
  \<open>p\<close> steps and not earlier.
\<close>

definition period_of :: "('a \<Rightarrow> 'a) \<Rightarrow> 'a \<Rightarrow> nat \<Rightarrow> bool" where
  "period_of f x p \<longleftrightarrow> 0 < p \<and> (f ^^ p) x = x \<and> (\<forall>k. 0 < k \<and> k < p \<longrightarrow> (f ^^ k) x \<noteq> x)"

text \<open>
  Linear maps as lists of the images of the 32 unit vectors: \<open>comb\<close> adds up the entries
  that the bits select, \<open>app\<close> applies such a list to a state, \<open>msq\<close> composes it with
  itself, and \<open>jump k M xs\<close> applies the \<open>n\<close>-th power of \<open>M\<close> to \<open>v\<close> for every
  pair \<open>(n, v)\<close> of \<open>xs\<close> with \<open>n < 2 ^ k\<close>, by repeated squaring.
\<close>

fun combw :: "bool list \<Rightarrow> u8 list \<Rightarrow> u8" where
  "combw (b # bs) (c # cs) = (if b then c XOR combw bs cs else combw bs cs)"
| "combw _ _ = 0"

definition bits8 :: "u8 \<Rightarrow> bool list" where
  "bits8 b = [bit b 0, bit b 1, bit b 2, bit b 3, bit b 4, bit b 5, bit b 6, bit b 7]"

definition bits_of :: "rng_t \<Rightarrow> bool list" where
  "bits_of g = bits8 (rng_x g) @ bits8 (rng_y g) @ bits8 (rng_z g) @ bits8 (rng_a g)"

fun comb :: "bool list \<Rightarrow> rng_t list \<Rightarrow> rng_t" where
  "comb (b # bs) (c # cs) = (if b then rxor c (comb bs cs) else comb bs cs)"
| "comb _ _ = rzero"

definition app :: "rng_t list \<Rightarrow> rng_t \<Rightarrow> rng_t" where
  "app M g = comb (bits_of g) M"

definition units8 :: "(u8 \<Rightarrow> rng_t) \<Rightarrow> rng_t list" where
  "units8 e = [e 1, e 2, e 4, e 8, e 16, e 32, e 64, e 128]"

definition units :: "rng_t list" where
  "units = units8 (\<lambda>b. rzero\<lparr>rng_x := b\<rparr>) @ units8 (\<lambda>b. rzero\<lparr>rng_y := b\<rparr>)
     @ units8 (\<lambda>b. rzero\<lparr>rng_z := b\<rparr>) @ units8 (\<lambda>b. rzero\<lparr>rng_a := b\<rparr>)"

definition mat_of :: "(rng_t \<Rightarrow> rng_t) \<Rightarrow> rng_t list" where
  "mat_of f = map f units"

definition msq :: "rng_t list \<Rightarrow> rng_t list" where
  "msq M = map (app M) M"

fun jump :: "nat \<Rightarrow> rng_t list \<Rightarrow> (nat \<times> rng_t) list \<Rightarrow> rng_t list" where
  "jump 0 M xs = map snd xs"
| "jump (Suc k) M xs =
     jump k (msq M) (map (\<lambda>(n, v). (n div 2, if odd n then app M v else v)) xs)"

text \<open>The images of the unit vectors under one step of the generator.\<close>

definition step_mat :: "rng_t list" where
  "step_mat =
    [\<lparr>rng_x = 0, rng_y = 0, rng_z = 0, rng_a = 51\<rparr>,
     \<lparr>rng_x = 0, rng_y = 0, rng_z = 0, rng_a = 102\<rparr>,
     \<lparr>rng_x = 0, rng_y = 0, rng_z = 0, rng_a = 204\<rparr>,
     \<lparr>rng_x = 0, rng_y = 0, rng_z = 0, rng_a = 152\<rparr>,
     \<lparr>rng_x = 0, rng_y = 0, rng_z = 0, rng_a = 48\<rparr>,
     \<lparr>rng_x = 0, rng_y = 0, rng_z = 0, rng_a = 96\<rparr>,
     \<lparr>rng_x = 0, rng_y = 0, rng_z = 0, rng_a = 192\<rparr>,
     \<lparr>rng_x = 0, rng_y = 0, rng_z = 0, rng_a = 128\<rparr>,
     \<lparr>rng_x = 1, rng_y = 0, rng_z = 0, rng_a = 0\<rparr>,
     \<lparr>rng_x = 2, rng_y = 0, rng_z = 0, rng_a = 0\<rparr>,
     \<lparr>rng_x = 4, rng_y = 0, rng_z = 0, rng_a = 0\<rparr>,
     \<lparr>rng_x = 8, rng_y = 0, rng_z = 0, rng_a = 0\<rparr>,
     \<lparr>rng_x = 16, rng_y = 0, rng_z = 0, rng_a = 0\<rparr>,
     \<lparr>rng_x = 32, rng_y = 0, rng_z = 0, rng_a = 0\<rparr>,
     \<lparr>rng_x = 64, rng_y = 0, rng_z = 0, rng_a = 0\<rparr>,
     \<lparr>rng_x = 128, rng_y = 0, rng_z = 0, rng_a = 0\<rparr>,
     \<lparr>rng_x = 0, rng_y = 1, rng_z = 0, rng_a = 0\<rparr>,
     \<lparr>rng_x = 0, rng_y = 2, rng_z = 0, rng_a = 0\<rparr>,
     \<lparr>rng_x = 0, rng_y = 4, rng_z = 0, rng_a = 0\<rparr>,
     \<lparr>rng_x = 0, rng_y = 8, rng_z = 0, rng_a = 0\<rparr>,
     \<lparr>rng_x = 0, rng_y = 16, rng_z = 0, rng_a = 0\<rparr>,
     \<lparr>rng_x = 0, rng_y = 32, rng_z = 0, rng_a = 0\<rparr>,
     \<lparr>rng_x = 0, rng_y = 64, rng_z = 0, rng_a = 0\<rparr>,
     \<lparr>rng_x = 0, rng_y = 128, rng_z = 0, rng_a = 0\<rparr>,
     \<lparr>rng_x = 0, rng_y = 0, rng_z = 1, rng_a = 1\<rparr>,
     \<lparr>rng_x = 0, rng_y = 0, rng_z = 2, rng_a = 3\<rparr>,
     \<lparr>rng_x = 0, rng_y = 0, rng_z = 4, rng_a = 6\<rparr>,
     \<lparr>rng_x = 0, rng_y = 0, rng_z = 8, rng_a = 12\<rparr>,
     \<lparr>rng_x = 0, rng_y = 0, rng_z = 16, rng_a = 24\<rparr>,
     \<lparr>rng_x = 0, rng_y = 0, rng_z = 32, rng_a = 48\<rparr>,
     \<lparr>rng_x = 0, rng_y = 0, rng_z = 64, rng_a = 96\<rparr>,
     \<lparr>rng_x = 0, rng_y = 0, rng_z = 128, rng_a = 192\<rparr>]"

section \<open>The invariant of the loop\<close>

text \<open>What every pass of the loop keeps true.\<close>

definition loop_inv :: "dice \<Rightarrow> bool" where
  "loop_inv s \<longleftrightarrow> rollResult s \<le> 6
     \<and> (state s = STATE_ROLL \<longrightarrow> 1 \<le> nextRollChangeDelay s \<and> nextRollChangeDelay s \<le> 4)
     \<and> (\<forall>e \<in> set (shown s). snd e \<le> 6)"

section \<open>Constants\<close>

lemma LOWBATT_VAL_eq: "LOWBATT_VAL = 122"
  by (simp add: LOWBATT_VAL_def VREF_def VLOWBATT_def cdiv_def)

lemma TMR_MS_values:
  "TMR_MS 32 = 2" "TMR_MS 50 = 3" "TMR_MS 100 = 6" "TMR_MS 200 = 12" "TMR_MS 400 = 25"
  "TMR_MS 2000 = 125"
  by (simp_all add: TMR_MS_def ctrunc_def cdiv_def)

lemma bit_BV: "bit (BV k) n \<longleftrightarrow> n = k \<and> k < 8"
  by (auto simp: BV_def bit_simps)

lemma portVals_in_mask:
  "pv \<in> set portVals \<Longrightarrow> bit pv n \<Longrightarrow> n \<in> {PORTB0, PORTB1, PORTB2, PORTB4}"
  by (auto simp: portVals_def bit_or_iff bit_BV)

lemma diceSet_ok:
  "val \<le> 6 \<Longrightarrow> diceSet val s =
     Some (s\<lparr>PORTB := (PORTB s AND NOT led_mask) OR portVals ! unat val,
             shown := shown s @ [(now s, val)]\<rparr>)"
  by (simp add: diceSet_def at_index_def portVals_def word_le_nat_alt)

lemma rollDelays_ok:
  "i \<le> 4 \<Longrightarrow> at_index rollDelays i = Some (rollDelays ! unat i)"
  by (simp add: at_index_def rollDelays_def word_le_nat_alt)

lemma unat_roll_of: "unat (roll_of r) = unat r mod 6 + 1"
proof -
  have "unat r mod 6 < 6" by simp
  then have "unat r mod 6 + 1 < 2 ^ LENGTH(8)" by simp
  then show ?thesis unfolding roll_of_def by (simp only: unat_of_nat mod_less)
qed

lemma roll_of_range: "1 \<le> roll_of r \<and> roll_of r \<le> 6"
  by (simp add: word_le_nat_alt unat_roll_of)

section \<open>Every pass keeps the invariant\<close>

lemma succ_le6: "(r::u8) \<le> 6 \<Longrightarrow> \<not> 6 < r + 1 \<Longrightarrow> r + 1 \<le> 6"
  by simp

lemma nrcd_succ:
  "(1::u8) \<le> n \<Longrightarrow> n \<le> 4 \<Longrightarrow> \<not> ROLLDELAY_COUNT \<le> unat (n + 1) \<Longrightarrow> 1 \<le> n + 1 \<and> n + 1 \<le> 4"
  by (simp add: ROLLDELAY_COUNT_def rollDelays_def word_le_nat_alt unat_word_ariths)

lemma warn_blink_inv: "loop_inv s \<Longrightarrow> \<exists>s'. warn_blink s = Some s' \<and> loop_inv s'"
  by (auto simp: warn_blink_def loop_inv_def diceSet_ok Let_def)

lemma roll_step_inv:
  "loop_inv s \<Longrightarrow> state s = STATE_ROLL \<Longrightarrow> \<exists>s'. roll_step s = Some s' \<and> loop_inv s'"
  using roll_of_range
  by (auto simp: roll_step_def loop_inv_def diceSet_ok rollDelays_ok Let_def succ_le6 nrcd_succ
      split: prod.splits)

lemma roll_done_inv:
  "loop_inv s \<Longrightarrow> state s = STATE_ROLLDONE \<Longrightarrow> \<exists>s'. roll_done s = Some s' \<and> loop_inv s'"
  by (auto simp: roll_done_def loop_inv_def diceSet_ok Let_def)

lemma steady_inv:
  "loop_inv s \<Longrightarrow> state s = STATE_STEADY \<Longrightarrow> \<exists>s'. steady s = Some s' \<and> loop_inv s'"
  by (auto simp: steady_def loop_inv_def diceSet_ok Let_def)

lemma display_update_inv: "loop_inv s \<Longrightarrow> \<exists>s'. display_update s = Some s' \<and> loop_inv s'"
  by (simp add: display_update_def warn_blink_inv roll_step_inv roll_done_inv steady_inv)

lemma pre_inv: "loop_inv s \<Longrightarrow> loop_inv (batt_check i (button_update i (wdt_tick i s)))"
  by (auto simp: loop_inv_def batt_check_def button_update_def wdt_tick_def Let_def)

lemma sleep_inv: "loop_inv s \<Longrightarrow> loop_inv (sleep_update i s)"
  by (auto simp: loop_inv_def sleep_update_def)

lemma loop_body_inv: "loop_inv s \<Longrightarrow> \<exists>s'. loop_body i s = Some s' \<and> loop_inv s'"
  using display_update_inv [OF pre_inv, of s i]
  by (auto simp: loop_body_def loop_logic_def sleep_inv)

lemma run_inv: "loop_inv s \<Longrightarrow> \<exists>s'. run ins s = Some s' \<and> loop_inv s'"
proof (induction ins arbitrary: s)
  case Nil
  then show ?case by simp
next
  case (Cons i ins)
  from loop_body_inv [OF Cons.prems, of i]
  obtain s1 where "loop_body i s = Some s1" "loop_inv s1"
    by blast
  with Cons.IH [of s1] show ?case by simp
qed

lemma main_init_inv: "loop_inv (main_init p0 g)"
  by (simp add: loop_inv_def main_init_def)

lemma main_start_run: "\<exists>s'. run ins (main_start p0 samples) = Some s' \<and> loop_inv s'"
  unfolding main_start_def by (rule run_inv [OF main_init_inv])

text \<open>
  C9. Whatever the hardware answers and however many passes the loop makes, from the state
  in which \<^verbatim>\<open>main\<close> enters the loop no table is read past its end (the run is defined),
  \<^verbatim>\<open>rollResult\<close> is at most 6, and every value that was handed to \<^verbatim>\<open>diceSet\<close> is at
  most 6.
\<close>

theorem diceSet_args_in_range:
  "\<exists>s'. run ins (main_init p0 g) = Some s' \<and> rollResult s' \<le> 6
     \<and> (\<forall>e \<in> set (shown s'). snd e \<le> 6)"
  using run_inv [OF main_init_inv, of ins p0 g] by (auto simp: loop_inv_def)

theorem diceSet_args_in_range_witness:
  "\<exists>s'. run (replicate 4 (hw True True 0)) (main_init 0 rng_seed) = Some s'
     \<and> rollResult s' = 1 \<and> shown s' = [(4, 1)] \<and> (1::u8) \<le> 6"
proof -
  have "map_option (\<lambda>s. (rollResult s, shown s))
      (run (replicate 4 (hw True True 0)) (main_init 0 rng_seed)) = Some (1, [(4, 1)])"
    by code_simp
  with diceSet_args_in_range [of "replicate 4 (hw True True 0)" 0 rng_seed]
  show ?thesis by auto
qed

section \<open>The button debouncer\<close>

lemma diceSet_fields:
  "diceSet v s = Some s' \<Longrightarrow> now s' = now s \<and> btnPressState s' = btnPressState s
     \<and> btnReleasedTime s' = btnReleasedTime s"
  by (auto simp: diceSet_def split: option.splits)

lemma display_update_btn:
  "display_update s = Some s' \<Longrightarrow> now s' = now s \<and> btnPressState s' = btnPressState s
     \<and> btnReleasedTime s' = btnReleasedTime s"
  by (auto simp: display_update_def warn_blink_def roll_step_def roll_done_def steady_def Let_def
        bind_eq_Some_conv
      dest!: diceSet_fields split: if_splits option.splits prod.splits)

lemma loop_body_btn:
  assumes "loop_body i s = Some s'"
  shows "now s' = now (wdt_tick i s) \<and> btnPressState s' = btnPressState (button_update i (wdt_tick i s))
     \<and> btnReleasedTime s' = btnReleasedTime (button_update i (wdt_tick i s))"
proof -
  from assms obtain s1 where s1: "display_update (batt_check i (button_update i (wdt_tick i s))) = Some s1"
    and s': "s' = sleep_update i s1"
    by (auto simp: loop_body_def loop_logic_def)
  from display_update_btn [OF s1] show ?thesis
    by (simp add: s' sleep_update_def batt_check_def button_update_def Let_def)
qed

lemma unat_succ_small: "unat w < 3 \<Longrightarrow> unat (w + 1) = unat w + 1" for w :: u8
  by (simp add: unat_word_ariths)

lemma unat_succ_diff:
  fixes n r :: u8
  assumes "unat (n - r) < 3"
  shows "unat (n + 1 - r) = unat (n - r) + 1"
proof -
  have eq: "n + 1 - r = (n - r) + 1" by simp
  show ?thesis unfolding eq by (rule unat_succ_small [OF assms])
qed

lemma debounce_step:
  assumes body: "loop_body i s = Some s1" and up: "\<not> btn_pressed i"
    and deb: "btnPressState s = BTN_DEBOUNCING" and e: "unat (now s - btnReleasedTime s) < 3"
  shows "if 3 \<le> unat (now s - btnReleasedTime s) + (if wdt_timedout i then 1 else 0)
         then btnPressState s1 = BTN_NOTPRESSED
         else btnPressState s1 = BTN_DEBOUNCING
           \<and> unat (now s1 - btnReleasedTime s1)
               = unat (now s - btnReleasedTime s) + (if wdt_timedout i then 1 else 0)"
  using loop_body_btn [OF body] up deb e unat_succ_diff [OF e]
  by (auto simp: wdt_tick_def button_update_def elapsed_def TMR_MS_values word_le_nat_alt)

lemma notpressed_step:
  assumes body: "loop_body i s = Some s1" and up: "\<not> btn_pressed i"
    and np: "btnPressState s = BTN_NOTPRESSED"
  shows "btnPressState s1 = BTN_NOTPRESSED"
  using loop_body_btn [OF body] up np
  by (auto simp: wdt_tick_def button_update_def)

lemma notpressed_run:
  "loop_inv s \<Longrightarrow> btnPressState s = BTN_NOTPRESSED \<Longrightarrow> \<forall>i \<in> set ins. \<not> btn_pressed i
    \<Longrightarrow> \<exists>s'. run ins s = Some s' \<and> loop_inv s' \<and> btnPressState s' = BTN_NOTPRESSED"
proof (induction ins arbitrary: s)
  case Nil
  then show ?case by simp
next
  case (Cons i ins)
  from loop_body_inv [OF Cons.prems(1), of i]
  obtain s1 where s1: "loop_body i s = Some s1" "loop_inv s1" by blast
  from notpressed_step [OF s1(1)] Cons.prems have "btnPressState s1 = BTN_NOTPRESSED" by simp
  with Cons.IH [OF s1(2)] Cons.prems s1 show ?case by simp
qed

lemma ticks_Cons: "ticks (i # ins) = (if wdt_timedout i then 1 else 0) + ticks ins"
  by (simp add: ticks_def)

lemma debounce_run:
  "loop_inv s \<Longrightarrow> btnPressState s = BTN_DEBOUNCING \<Longrightarrow> unat (now s - btnReleasedTime s) < 3
    \<Longrightarrow> \<forall>i \<in> set ins. \<not> btn_pressed i
    \<Longrightarrow> \<exists>s'. run ins s = Some s' \<and> loop_inv s'
       \<and> (if 3 \<le> unat (now s - btnReleasedTime s) + ticks ins
           then btnPressState s' = BTN_NOTPRESSED
           else btnPressState s' = BTN_DEBOUNCING
             \<and> unat (now s' - btnReleasedTime s') = unat (now s - btnReleasedTime s) + ticks ins)"
proof (induction ins arbitrary: s)
  case Nil
  then show ?case by (simp add: ticks_def)
next
  case (Cons i ins)
  from loop_body_inv [OF Cons.prems(1), of i]
  obtain s1 where s1: "loop_body i s = Some s1" "loop_inv s1" by blast
  from Cons.prems have up: "\<not> btn_pressed i" and rest: "\<forall>i \<in> set ins. \<not> btn_pressed i"
    by simp_all
  let ?e = "unat (now s - btnReleasedTime s) + (if wdt_timedout i then 1 else 0)"
  note st = debounce_step [OF s1(1) up Cons.prems(2) Cons.prems(3)]
  show ?case
  proof (cases "3 \<le> ?e")
    case True
    with st have "btnPressState s1 = BTN_NOTPRESSED" by simp
    from notpressed_run [OF s1(2) this rest] True s1(1) show ?thesis
      by (auto simp: ticks_Cons)
  next
    case False
    with st have d: "btnPressState s1 = BTN_DEBOUNCING"
      and e1: "unat (now s1 - btnReleasedTime s1) = ?e" by simp_all
    from False e1 have lt: "unat (now s1 - btnReleasedTime s1) < 3" by simp
    from Cons.IH [OF s1(2) d lt rest] s1(1) e1 show ?thesis
      by (auto simp: ticks_Cons split: if_splits)
  qed
qed

lemma release_step:
  assumes body: "loop_body i s = Some s1" and up: "\<not> btn_pressed i"
    and pr: "btnPressState s = BTN_PRESSED"
  shows "btnPressState s1 = BTN_DEBOUNCING \<and> btnReleasedTime s1 = now s1"
  using loop_body_btn [OF body] up pr
  by (auto simp: wdt_tick_def button_update_def)

lemma press_step:
  assumes body: "loop_body i s = Some s1" and dn: "btn_pressed i"
  shows "btnPressState s1 = BTN_PRESSED"
  using loop_body_btn [OF body] dn
  by (auto simp: wdt_tick_def button_update_def Let_def)

text \<open>
  C7. From a state in which the button counts as pressed, a pass that reads the button
  released moves the debouncer to Debouncing and records the tick of that pass. While the
  button stays released, after any number of further passes the debouncer is NotPressed if
  at least \<^verbatim>\<open>TMR_MS(50)\<close> = 3 ticks were seen since the release and is still Debouncing
  otherwise: it goes to NotPressed once and stays there. A pass that reads the button
  pressed, at any of these moments, gives Pressed; within the settle window the debouncer
  was never NotPressed.
\<close>

theorem debounce_release:
  assumes "loop_inv s" and "btnPressState s = BTN_PRESSED" and "\<not> btn_pressed i"
    and "\<forall>j \<in> set ins. \<not> btn_pressed j" and "btn_pressed p"
  shows "\<exists>s1. loop_body i s = Some s1 \<and> btnPressState s1 = BTN_DEBOUNCING
      \<and> btnReleasedTime s1 = now s1
      \<and> (\<forall>k. \<exists>s2 s3. run (take k ins) s1 = Some s2
            \<and> btnPressState s2 =
                (if unat (TMR_MS 50) \<le> ticks (take k ins) then BTN_NOTPRESSED else BTN_DEBOUNCING)
            \<and> loop_body p s2 = Some s3 \<and> btnPressState s3 = BTN_PRESSED)"
proof -
  from loop_body_inv [OF assms(1), of i]
  obtain s1 where s1: "loop_body i s = Some s1" "loop_inv s1" by blast
  from release_step [OF s1(1) assms(3) assms(2)]
  have d: "btnPressState s1 = BTN_DEBOUNCING" and r: "btnReleasedTime s1 = now s1" by simp_all
  from r have e: "unat (now s1 - btnReleasedTime s1) < 3" by simp
  have "\<exists>s2 s3. run (take k ins) s1 = Some s2
            \<and> btnPressState s2 =
                (if unat (TMR_MS 50) \<le> ticks (take k ins) then BTN_NOTPRESSED else BTN_DEBOUNCING)
            \<and> loop_body p s2 = Some s3 \<and> btnPressState s3 = BTN_PRESSED" for k
  proof -
    from assms(4) have up: "\<forall>j \<in> set (take k ins). \<not> btn_pressed j"
      by (auto dest: in_set_takeD)
    from debounce_run [OF s1(2) d e up] r
    obtain s2 where s2: "run (take k ins) s1 = Some s2" "loop_inv s2"
      "btnPressState s2 = (if 3 \<le> ticks (take k ins) then BTN_NOTPRESSED else BTN_DEBOUNCING)"
      by (auto split: if_splits)
    from loop_body_inv [OF s2(2), of p]
    obtain s3 where s3: "loop_body p s2 = Some s3" by blast
    from press_step [OF s3 assms(5)] s2 s3 show ?thesis
      by (simp add: TMR_MS_values)
  qed
  with s1 d r show ?thesis by blast
qed

theorem debounce_release_witness:
  "btnPressState (the (loop_body (hw True False 0) pressed0)) = BTN_DEBOUNCING
   \<and> btnPressState (the (run (replicate 2 (hw True False 0)) (the (loop_body (hw True False 0) pressed0))))
       = BTN_DEBOUNCING
   \<and> btnPressState (the (run (replicate 3 (hw True False 0)) (the (loop_body (hw True False 0) pressed0))))
       = BTN_NOTPRESSED"
proof -
  have h1: "loop_inv pressed0" by (simp add: loop_inv_def pressed0_def main_init_def)
  have h2: "btnPressState pressed0 = BTN_PRESSED" by (simp add: pressed0_def)
  have h3: "\<not> btn_pressed (hw True False 0)" by (simp add: hw_def)
  have h4: "\<forall>j \<in> set (replicate 3 (hw True False 0)). \<not> btn_pressed j" by (simp add: hw_def)
  have h5: "btn_pressed (hw True True 0)" by (simp add: hw_def)
  from debounce_release [OF h1 h2 h3 h4 h5]
  obtain s1 where s1: "loop_body (hw True False 0) pressed0 = Some s1"
    and k: "\<And>k. \<exists>s2. run (take k (replicate 3 (hw True False 0))) s1 = Some s2
            \<and> btnPressState s2 =
                (if unat (TMR_MS 50) \<le> ticks (take k (replicate 3 (hw True False 0)))
                 then BTN_NOTPRESSED else BTN_DEBOUNCING)"
    and d: "btnPressState s1 = BTN_DEBOUNCING"
    by blast
  have t: "ticks (replicate n (hw True False 0)) = n" for n
    by (simp add: ticks_def hw_def)
  from k [of 2] k [of 3] s1 d show ?thesis
    by (auto simp: t TMR_MS_values)
qed

section \<open>The sleep decision\<close>

lemma diceSet_wdt: "diceSet v s = Some t \<Longrightarrow> wdt_on t = wdt_on s"
  by (auto simp: diceSet_def split: option.splits)

lemma display_update_wdt: "display_update s = Some t \<Longrightarrow> wdt_on t = wdt_on s"
  by (auto simp: display_update_def warn_blink_def roll_step_def roll_done_def steady_def Let_def
        bind_eq_Some_conv
      dest!: diceSet_wdt split: if_splits option.splits prod.splits)

lemma loop_logic_wdt:
  assumes "loop_logic i s = Some s1"
  shows "wdt_on s1 \<longleftrightarrow> wdt_on s \<or> wdt_timedout i"
  using display_update_wdt [OF assms [unfolded loop_logic_def]]
  by (simp add: batt_check_def button_update_def wdt_tick_def Let_def)

text \<open>
  C8. Take any pass of the loop from a state that satisfies the invariant of the loop (every
  state the loop reaches does). Before the sleep decision the watchdog is running exactly if
  it was running when the pass began or the pass saw a tick, which re-arms it: nothing else
  in the pass touches it. The sleep decision then stops the watchdog and sets the battery
  state to the request for a check, whatever it was (also from Low), exactly if no tick is
  pending, the button reads released, the debouncer is NotPressed, the animator is Idle and
  the battery state is not the blinking warning; in every other case it changes nothing. So
  a watchdog that was running during the pass is off at its end only if the system is fully
  idle, and then a battery check is requested.
\<close>

theorem tick_source_disabled_only_idle:
  assumes "loop_inv s"
  shows "\<exists>s1 s'. loop_logic i s = Some s1 \<and> loop_body i s = Some s'
    \<and> (wdt_on s1 \<longleftrightarrow> wdt_on s \<or> wdt_timedout i)
    \<and> (if \<not> wdt_timedout_sleep i \<and> \<not> btn_pressed_sleep i \<and> btnPressState s1 = BTN_NOTPRESSED
          \<and> state s1 = STATE_IDLE \<and> lowBatt s1 \<noteq> BATT_LOWWARN
        then s' = s1\<lparr>wdt_on := False, lowBatt := BATT_DOCHECK\<rparr>
        else s' = s1)
    \<and> ((wdt_on s \<or> wdt_timedout i) \<and> \<not> wdt_on s' \<longrightarrow>
          \<not> wdt_timedout_sleep i \<and> \<not> btn_pressed_sleep i \<and> btnPressState s' = BTN_NOTPRESSED
          \<and> state s' = STATE_IDLE \<and> lowBatt s1 \<noteq> BATT_LOWWARN \<and> lowBatt s' = BATT_DOCHECK)"
proof -
  from loop_body_inv [OF assms, of i] obtain s' where b: "loop_body i s = Some s'" by blast
  then obtain s1 where s1: "loop_logic i s = Some s1" and s': "s' = sleep_update i s1"
    by (auto simp: loop_body_def)
  from loop_logic_wdt [OF s1] s1 s' b show ?thesis
    by (auto simp: sleep_update_def fully_idle_def)
qed

theorem tick_source_disabled_only_idle_witness:
  "loop_inv low0 \<and> lowBatt low0 = BATT_LOW \<and> wdt_on low0
   \<and> loop_body (hw False False 0) low0 = Some (low0\<lparr>wdt_on := False, lowBatt := BATT_DOCHECK\<rparr>)
   \<and> loop_body (hw False True 0) low0 \<noteq> None
   \<and> wdt_on (the (loop_body (hw False True 0) low0))"
proof -
  have inv: "loop_inv low0" by (simp add: loop_inv_def low0_def main_init_def)
  have h1: "loop_logic (hw False False 0) low0 = Some low0"
    by (simp add: loop_logic_def wdt_tick_def button_update_def batt_check_def
          display_update_def elapsed_def TMR_MS_values hw_def low0_def main_init_def)
  have h2: "loop_logic (hw False True 0) low0 = Some (low0\<lparr>btnPressState := BTN_PRESSED,
      nextRollChangeDelay := 1, state := STATE_ROLL\<rparr>)"
    by (simp add: loop_logic_def wdt_tick_def button_update_def batt_check_def
          display_update_def roll_step_def at_index_def rollDelays_def
          elapsed_def TMR_MS_values hw_def low0_def main_init_def)
  from tick_source_disabled_only_idle [OF inv, of "hw False False 0"]
    tick_source_disabled_only_idle [OF inv, of "hw False True 0"] h1 h2 inv
  show ?thesis
    by (auto simp: hw_def low0_def main_init_def)
qed

section \<open>Battery threshold\<close>

text \<open>
  C4. The threshold is the reference voltage divided by the quotient of the low-battery
  voltage and 255, both divisions truncating: 2400 / 255 = 9 and 1100 / 9 = 122 (a single
  division 1100 * 255 / 2400 would give 116). When a check is due, a sample strictly above
  the threshold gives the warning state and any other sample gives Ok.
\<close>

theorem lowbatt_threshold_classify:
  assumes "lowBatt s = BATT_DOCHECK"
  shows "LOWBATT_VAL = cdiv VREF (cdiv VLOWBATT 255) \<and> cdiv VLOWBATT 255 = 9
    \<and> LOWBATT_VAL = 122 \<and> cdiv (VREF * 255) VLOWBATT = 116
    \<and> lowBatt (batt_check i s) = (if 122 < uint (adc i) then BATT_LOWWARN else BATT_OK)"
  using assms
  by (simp add: batt_check_def LOWBATT_VAL_eq)
     (simp add: LOWBATT_VAL_def VREF_def VLOWBATT_def cdiv_def)

theorem lowbatt_threshold_classify_witness:
  "lowBatt (batt_check \<lparr>wdt_timedout = False, btn_pressed = False, adc = 123,
       wdt_timedout_sleep = False, btn_pressed_sleep = False\<rparr> (main_init 0 rng_seed))
     = BATT_LOWWARN
   \<and> lowBatt (batt_check \<lparr>wdt_timedout = False, btn_pressed = False, adc = 122,
       wdt_timedout_sleep = False, btn_pressed_sleep = False\<rparr> (main_init 0 rng_seed))
     = BATT_OK"
proof -
  have h: "lowBatt (main_init 0 rng_seed) = BATT_DOCHECK" by (simp add: main_init_def)
  show ?thesis
    using lowbatt_threshold_classify [OF h, of "\<lparr>wdt_timedout = False, btn_pressed = False,
        adc = 123, wdt_timedout_sleep = False, btn_pressed_sleep = False\<rparr>"]
      lowbatt_threshold_classify [OF h, of "\<lparr>wdt_timedout = False, btn_pressed = False,
        adc = 122, wdt_timedout_sleep = False, btn_pressed_sleep = False\<rparr>"]
    by simp
qed

section \<open>Elapsed time\<close>

text \<open>
  C5. If \<open>e < 256\<close> ticks have passed since the reference, so that the counter reads
  \<open>ref + e\<close> modulo 256, the comparison \<^verbatim>\<open>(uint8_t)(now - ref) >= thr\<close> holds exactly
  when \<open>e\<close> is at least the threshold, also when the counter has wrapped from 255 to 0.
\<close>

theorem elapsed_wrap_safe:
  fixes n ref thr :: u8
  assumes "e < 256" and "n = ref + word_of_nat e"
  shows "elapsed n ref thr \<longleftrightarrow> unat thr \<le> e"
  using assms by (simp add: elapsed_def word_le_nat_alt unat_of_nat)

theorem elapsed_wrap_safe_witness:
  "(3::nat) < 256 \<and> (1::u8) = 254 + word_of_nat 3 \<and> elapsed 1 254 3 \<and> \<not> elapsed 1 254 4"
proof -
  have h1: "(3::nat) < 256" by simp
  have h2: "(1::u8) = 254 + word_of_nat 3" by simp
  show ?thesis
    using h1 h2 elapsed_wrap_safe [OF h1 h2, of 3] elapsed_wrap_safe [OF h1 h2, of 4]
    by simp
qed

section \<open>The display driver\<close>

text \<open>
  C10. For a face from 0 to 6, \<^verbatim>\<open>diceSet\<close> succeeds and changes no bit of PORTB other
  than bits 0, 1, 2 and 4; bit 3, the pull-up of the button, keeps its value.
\<close>

theorem diceSet_frame:
  assumes "val \<le> 6"
  shows "\<exists>s'. diceSet val s = Some s'
    \<and> (\<forall>n. n \<notin> {PORTB0, PORTB1, PORTB2, PORTB4} \<longrightarrow> bit (PORTB s') n = bit (PORTB s) n)
    \<and> bit (PORTB s') PORTB3 = bit (PORTB s) PORTB3"
proof -
  from assms have "unat val \<le> 6" by (simp add: word_le_nat_alt)
  then have len: "unat val < length portVals" by (simp add: portVals_def)
  then have mem: "portVals ! unat val \<in> set portVals" by (rule nth_mem)
  have frame: "\<exists>s'. diceSet val s = Some s'
    \<and> (\<forall>n. n \<notin> {PORTB0, PORTB1, PORTB2, PORTB4} \<longrightarrow> bit (PORTB s') n = bit (PORTB s) n)"
    using len portVals_in_mask [OF mem]
    by (auto simp: diceSet_def at_index_def bit_or_iff bit_and_iff bit_not_iff led_mask_def
          bit_BV dest: bit_imp_le_length)
  have "PORTB3 \<notin> {PORTB0, PORTB1, PORTB2, PORTB4}"
    by (simp add: PORTB0_def PORTB1_def PORTB2_def PORTB3_def PORTB4_def)
  with frame show ?thesis by blast
qed

theorem diceSet_frame_witness:
  "(5::u8) \<le> 6 \<and> (\<exists>s'. diceSet 5 (main_init 0 rng_seed) = Some s'
     \<and> bit (PORTB s') PORTB3 \<and> PORTB s' = 30)"
proof -
  have h: "(5::u8) \<le> 6" by simp
  from diceSet_frame [OF h, of "main_init 0 rng_seed"]
  show ?thesis
    by (simp add: diceSet_def at_index_def portVals_def led_mask_def BV_def main_init_def
          PORTB0_def PORTB1_def PORTB2_def PORTB3_def PORTB4_def)
qed

section \<open>Running the loop on given inputs\<close>

lemmas pass_defs = loop_body_def loop_logic_def wdt_tick_def button_update_def batt_check_def
  display_update_def warn_blink_def roll_step_def roll_done_def steady_def sleep_update_def
  fully_idle_def diceSet_def at_index_def elapsed_def hw_def
  TMR_MS_values LOWBATT_VAL_eq rollDelays_def ROLLDELAY_COUNT_def portVals_def Let_def
  word_le_nat_alt word_less_nat_alt

lemma replicate_numeral: "replicate (numeral k) x = x # replicate (pred_numeral k) x"
  by (simp add: numeral_eq_Suc)

lemma unat_roll_of_le6: "unat (roll_of r) < Suc (Suc (Suc (Suc (Suc (Suc (Suc 0))))))"
  by (simp add: unat_roll_of)

lemma main_init_rng: "(main_init p0 g)\<lparr>rng := g'\<rparr> = main_init p0 g'"
  by (simp add: main_init_def)

section \<open>The low-battery warning\<close>

















lemma press_release_completes_low:
  assumes "LOWBATT_VAL < uint a"
  shows "\<exists>t. run (hw True True a # replicate 68 (hw True False a)) (main_init p0 g) = Some t
     \<and> state t = STATE_ROLLDONE \<and> lowBatt t = BATT_LOW
     \<and> rollResult t = roll_of (fst (genRandom g))
     \<and> shown t = [(3, 0), (5, 1), (7, 0), (9, 1), (11, 0), (13, 1), (15, 0), (17, 1), (19, 0),
          (21, 1), (23, 0), (26, 1), (32, 2), (44, 3), (69, roll_of (fst (genRandom g)))]"
  using assms
  by (simp add: replicate_numeral pass_defs main_init_def unat_roll_of_le6 split: prod.splits)




section \<open>The roll\<close>

lemma sleep_update_fields:
  "state (sleep_update i s) = state s" "rng (sleep_update i s) = rng s"
  "rollResult (sleep_update i s) = rollResult s" "shown (sleep_update i s) = shown s"
  "now (sleep_update i s) = now s"
  by (simp_all add: sleep_update_def)

lemma sleep_update_rng: "sleep_update i (s\<lparr>rng := g\<rparr>) = (sleep_update i s)\<lparr>rng := g\<rparr>"
  by (simp add: sleep_update_def fully_idle_def)

lemma pre_pressed:
  assumes "btn_pressed i"
  shows "state (batt_check i (button_update i (wdt_tick i s))) = STATE_ROLL"
    and "nextRollChangeDelay (batt_check i (button_update i (wdt_tick i s))) = 1"
    and "rng (batt_check i (button_update i (wdt_tick i s))) = rng s"
    and "rollResult (batt_check i (button_update i (wdt_tick i s))) = rollResult s"
  using assms by (simp_all add: batt_check_def button_update_def wdt_tick_def Let_def)

lemma pre_rng:
  "batt_check i (button_update i (wdt_tick i (s\<lparr>rng := g\<rparr>)))
     = (batt_check i (button_update i (wdt_tick i s)))\<lparr>rng := g\<rparr>"
  by (simp add: batt_check_def button_update_def wdt_tick_def Let_def)

lemma pre_released:
  assumes "\<not> btn_pressed i"
  shows "state (batt_check i (button_update i (wdt_tick i s))) = state s"
    and "rng (batt_check i (button_update i (wdt_tick i s))) = rng s"
    and "shown (batt_check i (button_update i (wdt_tick i s))) = shown s"
  using assms by (simp_all add: batt_check_def button_update_def wdt_tick_def Let_def)

lemma diceSet_keeps:
  "diceSet v s = Some t \<Longrightarrow> state t = state s \<and> rng t = rng s \<and> now t = now s
     \<and> rollResult t = rollResult s \<and> shown t = shown s @ [(now s, v)]"
  by (auto simp: diceSet_def split: option.splits)

lemma diceSet_rng:
  "diceSet v (s\<lparr>rng := g\<rparr>) = map_option (\<lambda>t. t\<lparr>rng := g\<rparr>) (diceSet v s)"
  by (simp add: diceSet_def split: option.splits)

lemma warn_blink_keeps: "warn_blink s = Some t \<Longrightarrow> state t = state s \<and> rng t = rng s"
  by (auto simp: warn_blink_def Let_def bind_eq_Some_conv dest!: diceSet_keeps split: if_splits)

lemma warn_blink_rng:
  "warn_blink (s\<lparr>rng := g\<rparr>) = map_option (\<lambda>t. t\<lparr>rng := g\<rparr>) (warn_blink s)"
  by (cases s) (simp add: warn_blink_def diceSet_def Let_def split: option.splits)

lemma roll_step_first:
  assumes "nextRollChangeDelay s = 1" and "rollResult s \<le> 6"
  shows "\<exists>t. roll_step s = Some t \<and> state t = state s \<and> rng t = rng s
     \<and> roll_step (s\<lparr>rng := g\<rparr>) = Some (t\<lparr>rng := g\<rparr>)"
proof -
  have d: "at_index rollDelays 1 = Some 3"
    by (simp add: at_index_def rollDelays_def TMR_MS_values)
  have c: "\<not> ROLLDELAY_COUNT \<le> unat (1 + 1 :: u8)"
    by (simp add: ROLLDELAY_COUNT_def rollDelays_def)
  show ?thesis
    using assms d c by (simp add: roll_step_def Let_def diceSet_ok not_less)
qed

lemma roll_step_first_state:
  assumes "nextRollChangeDelay s = 1" and "roll_step s = Some t"
  shows "state t = state s"
  using assms
  by (auto simp: roll_step_def at_index_def ROLLDELAY_COUNT_def rollDelays_def Let_def
      dest!: diceSet_keeps split: if_splits)

lemma roll_step_done:
  assumes "roll_step s = Some t" and "state t = STATE_ROLLDONE" and "state s \<noteq> STATE_ROLLDONE"
  shows "rollResult t = roll_of (fst (genRandom (rng s))) \<and> rng t = snd (genRandom (rng s))
     \<and> shown t = shown s @ [(now t, rollResult t)]"
  using assms
  by (auto simp: roll_step_def Let_def dest!: diceSet_keeps
      split: if_splits option.splits prod.splits)

lemma steady_state: "steady s = Some t \<Longrightarrow> state t = STATE_IDLE \<or> state t = state s"
  by (auto simp: steady_def bind_eq_Some_conv dest!: diceSet_keeps split: if_splits)

lemma held_step:
  assumes inv: "loop_inv s" and p: "btn_pressed i"
  shows "\<exists>s'. loop_body i s = Some s' \<and> state s' = STATE_ROLL \<and> rng s' = rng s
     \<and> loop_body i (s\<lparr>rng := g'\<rparr>) = Some (s'\<lparr>rng := g'\<rparr>)"
proof -
  let ?p = "batt_check i (button_update i (wdt_tick i s))"
  note pp = pre_pressed [OF p, of s]
  from inv have r6: "rollResult ?p \<le> 6" by (simp add: pp loop_inv_def)
  have "\<exists>t. display_update ?p = Some t \<and> state t = STATE_ROLL \<and> rng t = rng s
      \<and> display_update (?p\<lparr>rng := g'\<rparr>) = Some (t\<lparr>rng := g'\<rparr>)"
  proof (cases "lowBatt ?p = BATT_LOWWARN")
    case True
    from display_update_inv [OF pre_inv [OF inv], of i] True
    obtain t where t: "warn_blink ?p = Some t" by (auto simp: display_update_def)
    from warn_blink_keeps [OF t] True t show ?thesis
      by (simp add: display_update_def warn_blink_rng pp)
  next
    case False
    from roll_step_first [OF pp(2) r6, of g'] False show ?thesis
      by (auto simp: display_update_def pp)
  qed
  then obtain t where t: "display_update ?p = Some t" "state t = STATE_ROLL" "rng t = rng s"
    "display_update (?p\<lparr>rng := g'\<rparr>) = Some (t\<lparr>rng := g'\<rparr>)" by blast
  then show ?thesis
    by (simp add: loop_body_def loop_logic_def pre_rng sleep_update_fields sleep_update_rng)
qed

lemma roll_completion_step:
  assumes body: "loop_body i s = Some t" and fin: "state t = STATE_ROLLDONE"
    and before: "state s \<noteq> STATE_ROLLDONE"
  shows "\<not> btn_pressed i \<and> state s = STATE_ROLL \<and> rollResult t = roll_of (fst (genRandom (rng s)))
    \<and> rng t = snd (genRandom (rng s)) \<and> shown t = shown s @ [(now t, rollResult t)]"
proof -
  let ?p = "batt_check i (button_update i (wdt_tick i s))"
  from body obtain u where u: "display_update ?p = Some u" and t: "t = sleep_update i u"
    by (auto simp: loop_body_def loop_logic_def)
  from fin t have ud: "state u = STATE_ROLLDONE" by (simp add: sleep_update_fields)
  have np: "\<not> btn_pressed i"
  proof
    assume p: "btn_pressed i"
    note pp = pre_pressed [OF p, of s]
    from u have "state u = STATE_ROLL"
      by (auto simp: display_update_def pp dest: warn_blink_keeps roll_step_first_state [OF pp(2)]
          split: if_splits)
    with ud show False by simp
  qed
  note pr = pre_released [OF np, of s]
  from u ud before have rs: "roll_step ?p = Some u" and sr: "state s = STATE_ROLL"
    by (auto simp: display_update_def pr dest: warn_blink_keeps steady_state split: if_splits)
  from before have "state ?p \<noteq> STATE_ROLLDONE" by (simp add: pr)
  from roll_step_done [OF rs ud this] np sr show ?thesis
    by (simp add: t sleep_update_fields pr)
qed

lemma held_run:
  assumes "loop_inv s" and "\<forall>i \<in> set ins. btn_pressed i"
  shows "\<exists>s'. run ins s = Some s' \<and> (ins \<noteq> [] \<longrightarrow> state s' = STATE_ROLL) \<and> rng s' = rng s
     \<and> run ins (s\<lparr>rng := g'\<rparr>) = Some (s'\<lparr>rng := g'\<rparr>)"
  using assms
proof (induction ins arbitrary: s)
  case Nil
  then show ?case by simp
next
  case (Cons i ins)
  from Cons.prems have p: "btn_pressed i" and rest: "\<forall>i \<in> set ins. btn_pressed i" by simp_all
  from held_step [OF Cons.prems(1) p, of g']
  obtain s1 where s1: "loop_body i s = Some s1" "state s1 = STATE_ROLL" "rng s1 = rng s"
    "loop_body i (s\<lparr>rng := g'\<rparr>) = Some (s1\<lparr>rng := g'\<rparr>)" by blast
  from loop_body_inv [OF Cons.prems(1), of i] s1(1) have inv1: "loop_inv s1" by simp
  from Cons.IH [OF inv1 rest]
  obtain s' where s': "run ins s1 = Some s'" "ins \<noteq> [] \<longrightarrow> state s' = STATE_ROLL"
    "rng s' = rng s1" "run ins (s1\<lparr>rng := g'\<rparr>) = Some (s'\<lparr>rng := g'\<rparr>)" by blast
  show ?case
  proof (cases ins)
    case Nil
    with s1 s' show ?thesis by simp
  next
    case (Cons j js)
    with s1 s' show ?thesis by simp
  qed
qed

lemma press_release_completes:
  assumes "uint a \<le> LOWBATT_VAL"
  shows "\<exists>t. run (hw True True a # replicate 46 (hw True False a)) (main_init p0 g) = Some t
     \<and> state t = STATE_ROLLDONE
     \<and> rollResult t = roll_of (fst (genRandom g))
     \<and> shown t = [(4, 1), (10, 2), (22, 3), (47, roll_of (fst (genRandom g)))]"
  using assms
  by (simp add: replicate_numeral pass_defs main_init_def unat_roll_of_le6 split: prod.splits)

lemma press_release_rolling_46:
  assumes "uint a \<le> LOWBATT_VAL"
  shows "\<exists>t. run (hw True True a # replicate 45 (hw True False a)) (main_init p0 g) = Some t
     \<and> state t = STATE_ROLL \<and> rng t = g"
  using assms
  by (simp add: replicate_numeral pass_defs main_init_def unat_roll_of_le6 split: prod.splits)

lemma press_release_rolling_68:
  assumes "LOWBATT_VAL < uint a"
  shows "\<exists>t. run (hw True True a # replicate 67 (hw True False a)) (main_init p0 g) = Some t
     \<and> state t = STATE_ROLL \<and> rng t = g"
  using assms
  by (simp add: replicate_numeral pass_defs main_init_def unat_roll_of_le6 split: prod.splits)

text \<open>
  C1, as the code has it. While every pass reads the button pressed, whatever the ticks and
  the battery samples, the animator is in Rolling after each pass and the generator is never
  called; the whole state, and with it the sequence of faces shown, does not depend on the
  generator. So the roll does not complete while the button is held. A pass that takes the
  animator to RollSettling reads the button released, and it sets the result to
  \<^verbatim>\<open>(genRandom() % 6) + 1\<close>, a value from 1 to 6, which is the face it shows. With the
  button pressed in the first pass only and a tick on every pass, that happens in pass 47,
  after the faces 1, 2, 3, when the battery sample is at or below the threshold, and in pass
  69, after the eleven writes of the low-battery warning and the faces 1, 2, 3, when the
  sample is above it; one pass earlier the animator is still in Rolling.
\<close>

theorem held_button_keeps_rolling:
  assumes "\<forall>i \<in> set ins. btn_pressed i" and "ins \<noteq> []"
  shows "(\<exists>s'. run ins (main_init p0 g) = Some s' \<and> state s' = STATE_ROLL \<and> rng s' = g
      \<and> run ins (main_init p0 g') = Some (s'\<lparr>rng := g'\<rparr>))
    \<and> (\<forall>i s t. loop_body i s = Some t \<and> state t = STATE_ROLLDONE \<and> state s \<noteq> STATE_ROLLDONE
          \<longrightarrow> \<not> btn_pressed i \<and> state s = STATE_ROLL
            \<and> rollResult t = roll_of (fst (genRandom (rng s)))
            \<and> unat (rollResult t) = unat (fst (genRandom (rng s))) mod 6 + 1
            \<and> 1 \<le> rollResult t \<and> rollResult t \<le> 6
            \<and> rng t = snd (genRandom (rng s))
            \<and> shown t = shown s @ [(now t, rollResult t)])
    \<and> (uint a \<le> LOWBATT_VAL \<longrightarrow>
         (\<exists>t. run (hw True True a # replicate 45 (hw True False a)) (main_init p0 g) = Some t
            \<and> state t = STATE_ROLL)
         \<and> (\<exists>t. run (hw True True a # replicate 46 (hw True False a)) (main_init p0 g) = Some t
            \<and> state t = STATE_ROLLDONE
            \<and> rollResult t = roll_of (fst (genRandom g))
            \<and> shown t = [(4, 1), (10, 2), (22, 3), (47, roll_of (fst (genRandom g)))]))
    \<and> (LOWBATT_VAL < uint a \<longrightarrow>
         (\<exists>t. run (hw True True a # replicate 67 (hw True False a)) (main_init p0 g) = Some t
            \<and> state t = STATE_ROLL)
         \<and> (\<exists>t. run (hw True True a # replicate 68 (hw True False a)) (main_init p0 g) = Some t
            \<and> state t = STATE_ROLLDONE
            \<and> rollResult t = roll_of (fst (genRandom g))
            \<and> shown t = [(3, 0), (5, 1), (7, 0), (9, 1), (11, 0), (13, 1), (15, 0), (17, 1),
                 (19, 0), (21, 1), (23, 0), (26, 1), (32, 2), (44, 3),
                 (69, roll_of (fst (genRandom g)))]))"
proof -
  from held_run [OF main_init_inv assms(1), of p0 g g'] assms(2)
  have a: "\<exists>s'. run ins (main_init p0 g) = Some s' \<and> state s' = STATE_ROLL \<and> rng s' = g
      \<and> run ins (main_init p0 g') = Some (s'\<lparr>rng := g'\<rparr>)"
    by (auto simp: main_init_rng main_init_def)
  have b: "\<not> btn_pressed i \<and> state s = STATE_ROLL
            \<and> rollResult t = roll_of (fst (genRandom (rng s)))
            \<and> unat (rollResult t) = unat (fst (genRandom (rng s))) mod 6 + 1
            \<and> 1 \<le> rollResult t \<and> rollResult t \<le> 6
            \<and> rng t = snd (genRandom (rng s))
            \<and> shown t = shown s @ [(now t, rollResult t)]"
    if "loop_body i s = Some t \<and> state t = STATE_ROLLDONE \<and> state s \<noteq> STATE_ROLLDONE"
    for i s t
  proof -
    from that have h: "loop_body i s = Some t" "state t = STATE_ROLLDONE"
      "state s \<noteq> STATE_ROLLDONE" by simp_all
    from roll_completion_step [OF h] roll_of_range [of "fst (genRandom (rng s))"]
      unat_roll_of [of "fst (genRandom (rng s))"]
    show ?thesis by simp
  qed
  have c: "(\<exists>t. run (hw True True a # replicate 45 (hw True False a)) (main_init p0 g) = Some t
            \<and> state t = STATE_ROLL)
         \<and> (\<exists>t. run (hw True True a # replicate 46 (hw True False a)) (main_init p0 g) = Some t
            \<and> state t = STATE_ROLLDONE
            \<and> rollResult t = roll_of (fst (genRandom g))
            \<and> shown t = [(4, 1), (10, 2), (22, 3), (47, roll_of (fst (genRandom g)))])"
    if "uint a \<le> LOWBATT_VAL"
    using press_release_rolling_46 [OF that, of p0 g] press_release_completes [OF that, of p0 g]
    by blast
  have d: "(\<exists>t. run (hw True True a # replicate 67 (hw True False a)) (main_init p0 g) = Some t
            \<and> state t = STATE_ROLL)
         \<and> (\<exists>t. run (hw True True a # replicate 68 (hw True False a)) (main_init p0 g) = Some t
            \<and> state t = STATE_ROLLDONE
            \<and> rollResult t = roll_of (fst (genRandom g))
            \<and> shown t = [(3, 0), (5, 1), (7, 0), (9, 1), (11, 0), (13, 1), (15, 0), (17, 1),
                 (19, 0), (21, 1), (23, 0), (26, 1), (32, 2), (44, 3),
                 (69, roll_of (fst (genRandom g)))])"
    if "LOWBATT_VAL < uint a"
    using press_release_rolling_68 [OF that, of p0 g]
      press_release_completes_low [OF that, of p0 g]
    by blast
  from a b c d show ?thesis by blast
qed

theorem held_button_keeps_rolling_witness:
  "(\<exists>s'. run (replicate 50 (hw True True 0)) (main_init 0 rng_seed) = Some s'
        \<and> state s' = STATE_ROLL \<and> rng s' = rng_seed)
   \<and> (\<exists>t. run (hw True True 0 # replicate 45 (hw True False 0)) (main_init 0 rng_seed) = Some t
        \<and> state t = STATE_ROLL)
   \<and> (\<exists>t. run (hw True True 0 # replicate 46 (hw True False 0)) (main_init 0 rng_seed) = Some t
        \<and> state t = STATE_ROLLDONE \<and> rollResult t = 6
        \<and> shown t = [(4, 1), (10, 2), (22, 3), (47, 6)])
   \<and> (\<exists>t. run (hw True True 200 # replicate 67 (hw True False 200)) (main_init 0 rng_seed)
          = Some t
        \<and> state t = STATE_ROLL)
   \<and> (\<exists>t. run (hw True True 200 # replicate 68 (hw True False 200)) (main_init 0 rng_seed)
          = Some t
        \<and> state t = STATE_ROLLDONE \<and> rollResult t = 6
        \<and> map snd (shown t) = [0, 1, 0, 1, 0, 1, 0, 1, 0, 1, 0, 1, 2, 3, 6])"
proof -
  have h1: "\<forall>i \<in> set (replicate 50 (hw True True 0)). btn_pressed i" by (simp add: hw_def)
  have h2: "replicate 50 (hw True True 0) \<noteq> []" by simp
  have h3: "uint (0 :: u8) \<le> LOWBATT_VAL" by (simp add: LOWBATT_VAL_eq)
  have h4: "LOWBATT_VAL < uint (200 :: u8)" by (simp add: LOWBATT_VAL_eq)
  have r: "roll_of (fst (genRandom rng_seed)) = 6" by code_simp
  from held_button_keeps_rolling [OF h1 h2, of 0 rng_seed rng_seed 0]
    held_button_keeps_rolling [OF h1 h2, of 0 rng_seed rng_seed 200] h3 h4 r
  show ?thesis by auto
qed

text \<open>
  The claim as it is written fails: with the button held and a tick on every pass, after
  no number of passes has the roll completed, and the generator is still in its start state.
\<close>

theorem held_roll_completes_counterexample:
  "\<forall>n. \<exists>s. run (replicate n (hw True True 0)) (main_init 0 rng_seed) = Some s
     \<and> state s \<noteq> STATE_ROLLDONE \<and> state s \<noteq> STATE_STEADY \<and> rng s = rng_seed"
proof
  fix n
  have h: "\<forall>i \<in> set (replicate n (hw True True 0)). btn_pressed i" by (simp add: hw_def)
  from held_run [OF main_init_inv h, of 0 rng_seed rng_seed]
  show "\<exists>s. run (replicate n (hw True True 0)) (main_init 0 rng_seed) = Some s
     \<and> state s \<noteq> STATE_ROLLDONE \<and> state s \<noteq> STATE_STEADY \<and> rng s = rng_seed"
    by (cases n) (auto simp: main_init_def)
qed

section \<open>Blinking the result\<close>

lemma settle45:
  assumes "state s = STATE_ROLLDONE" "blinkState s = 0" "blinkCount s = 0"
    "lowBatt s \<noteq> BATT_DOCHECK" "lowBatt s \<noteq> BATT_LOWWARN"
    "rollResult s \<le> 6" "btnPressState s = BTN_NOTPRESSED"
  shows "\<exists>s45. run (replicate 45 (hw True False a)) s = Some s45 \<and> state s45 = STATE_ROLLDONE
     \<and> shown s45 = shown s @ [(now s + 1, rollResult s), (now s + 13, 0), (now s + 16, rollResult s),
          (now s + 28, 0), (now s + 31, rollResult s), (now s + 43, 0)]
     \<and> now s45 = now s + 45 \<and> timer s45 = now s + 43 \<and> blinkState s45 = 3 \<and> blinkCount s45 = 3
     \<and> lowBatt s45 = lowBatt s \<and> rollResult s45 = rollResult s \<and> btnPressState s45 = BTN_NOTPRESSED"
  using assms
  by (cases s) (simp add: replicate_numeral pass_defs)

lemma settle46:
  assumes "state s = STATE_ROLLDONE" "blinkState s = 3" "blinkCount s = 3"
    "lowBatt s \<noteq> BATT_DOCHECK" "lowBatt s \<noteq> BATT_LOWWARN"
    "rollResult s \<le> 6" "btnPressState s = BTN_NOTPRESSED" "now s = timer s + 2"
  shows "\<exists>s46. loop_body (hw True False a) s = Some s46 \<and> state s46 = STATE_STEADY
     \<and> shown s46 = shown s @ [(now s + 1, rollResult s)]
     \<and> now s46 = now s + 1 \<and> timer s46 = now s + 1 \<and> blinkState s46 = 0 \<and> blinkCount s46 = 0
     \<and> rollResult s46 = rollResult s"
  using assms
  by (cases s) (simp add: pass_defs)

lemma settling0_reached:
  "run (hw True True 0 # replicate 46 (hw True False 0)) (main_init 0 rng_seed) = Some settling0"
  by code_simp

text \<open>
  C6, as the code has it. Let the animator be in RollSettling with the blink counter and
  the blink state cleared, as a fresh press leaves them, the battery state neither the
  warning nor a pending check, and let a tick come on every pass with the button released.
  Then the result is written in the first pass, blank \<^verbatim>\<open>TMR_MS(200)\<close> = 12 ticks later,
  the result \<^verbatim>\<open>TMR_MS(50)\<close> = 3 ticks after that, and so on: three complete cycles of
  12 ticks shown and 3 ticks hidden. After 45 passes the state is still RollSettling. The
  fourth write of the result, in pass 46, is the one that moves the animator to Steady, in
  the same pass: the fourth show phase does not run in RollSettling. The result is the last
  face written, and the timer of Steady starts at that write.
\<close>

theorem roll_settling_sequence:
  assumes "state s = STATE_ROLLDONE" "blinkState s = 0" "blinkCount s = 0"
    "lowBatt s \<noteq> BATT_DOCHECK" "lowBatt s \<noteq> BATT_LOWWARN"
    "rollResult s \<le> 6" "btnPressState s = BTN_NOTPRESSED"
  shows "\<exists>s45 s46. run (replicate 45 (hw True False a)) s = Some s45
     \<and> state s45 = STATE_ROLLDONE
     \<and> shown s45 = shown s @ [(now s + 1, rollResult s), (now s + 1 + TMR_MS 200, 0),
          (now s + 16, rollResult s), (now s + 16 + TMR_MS 200, 0),
          (now s + 31, rollResult s), (now s + 31 + TMR_MS 200, 0)]
     \<and> now s + 16 = now s + 1 + TMR_MS 200 + TMR_MS 50
     \<and> now s + 31 = now s + 16 + TMR_MS 200 + TMR_MS 50
     \<and> now s + 46 = now s + 31 + TMR_MS 200 + TMR_MS 50
     \<and> loop_body (hw True False a) s45 = Some s46
     \<and> state s46 = STATE_STEADY
     \<and> shown s46 = shown s45 @ [(now s + 46, rollResult s)]
     \<and> now s46 = now s + 46 \<and> timer s46 = now s46 \<and> rollResult s46 = rollResult s"
proof -
  from settle45 [OF assms, of a]
  obtain s45 where s45: "run (replicate 45 (hw True False a)) s = Some s45"
    "state s45 = STATE_ROLLDONE"
    "shown s45 = shown s @ [(now s + 1, rollResult s), (now s + 13, 0),
       (now s + 16, rollResult s), (now s + 28, 0), (now s + 31, rollResult s), (now s + 43, 0)]"
    "now s45 = now s + 45" "timer s45 = now s + 43" "blinkState s45 = 3" "blinkCount s45 = 3"
    "lowBatt s45 = lowBatt s" "rollResult s45 = rollResult s"
    "btnPressState s45 = BTN_NOTPRESSED"
    by blast
  have pre: "lowBatt s45 \<noteq> BATT_DOCHECK" "lowBatt s45 \<noteq> BATT_LOWWARN" "rollResult s45 \<le> 6"
    "now s45 = timer s45 + 2"
    using assms s45 by simp_all
  from settle46 [OF s45(2) s45(6) s45(7) pre(1) pre(2) pre(3) s45(10) pre(4), of a]
  obtain s46 where s46: "loop_body (hw True False a) s45 = Some s46" "state s46 = STATE_STEADY"
    "shown s46 = shown s45 @ [(now s45 + 1, rollResult s45)]"
    "now s46 = now s45 + 1" "timer s46 = now s45 + 1" "rollResult s46 = rollResult s45"
    by blast
  from s45 s46 show ?thesis by (simp add: TMR_MS_values)
qed

theorem roll_settling_sequence_witness:
  "run (hw True True 0 # replicate 46 (hw True False 0)) (main_init 0 rng_seed) = Some settling0
   \<and> (\<exists>s45 s46. run (replicate 45 (hw True False 0)) settling0 = Some s45
     \<and> state s45 = STATE_ROLLDONE
     \<and> loop_body (hw True False 0) s45 = Some s46
     \<and> state s46 = STATE_STEADY
     \<and> shown s46 = [(4, 1), (10, 2), (22, 3), (47, 6),
          (48, 6), (60, 0), (63, 6), (75, 0), (78, 6), (90, 0), (93, 6)])"
proof -
  have h: "state settling0 = STATE_ROLLDONE" "blinkState settling0 = 0"
    "blinkCount settling0 = 0" "lowBatt settling0 \<noteq> BATT_DOCHECK"
    "lowBatt settling0 \<noteq> BATT_LOWWARN" "rollResult settling0 \<le> 6"
    "btnPressState settling0 = BTN_NOTPRESSED"
    by (simp_all add: settling0_def)
  from roll_settling_sequence [OF h, of 0] settling0_reached show ?thesis
    by (auto simp: settling0_def TMR_MS_values)
qed

text \<open>
  The claim as it is written fails: in the run above the fourth show of the result starts
  at tick 93, and at the end of that very pass the animator is already in Steady, after
  only three show phases of 12 ticks have been completed (48 to 60, 63 to 75, 78 to 90).
\<close>

theorem roll_settling_four_shows_counterexample:
  "map_option (\<lambda>s. (state s, now s, drop 4 (shown s)))
     (run (hw True True 0 # replicate 92 (hw True False 0)) (main_init 0 rng_seed))
   = Some (STATE_STEADY, 93, [(48, 6), (60, 0), (63, 6), (75, 0), (78, 6), (90, 0), (93, 6)])"
  by code_simp

section \<open>The random generator\<close>

lemma rxor_assoc: "rxor (rxor a b) c = rxor a (rxor b c)"
  by (simp add: rxor_def ac_simps)

lemma rxor_rzero [simp]: "rxor rzero g = g" "rxor g rzero = g"
  by (simp_all add: rxor_def rzero_def)

lemma double_xor: "2 * (v XOR w) = 2 * v XOR 2 * w" for v w :: u8
  using push_bit_xor [of 1 v w] unfolding push_bit_eq_mult by (simp add: mult.commute)

lemma rng_step_linear: "linear_map rng_step"
  by (simp add: linear_map_def rng_step_def genRandom_def rxor_def rzero_def Let_def double_xor
      ac_simps)

lemma comb_map: "linear_map f \<Longrightarrow> comb bs (map f us) = f (comb bs us)"
  by (induction bs us rule: comb.induct) (simp_all add: linear_map_def)

lemma comb_append:
  "length bs = length us \<Longrightarrow> comb (bs @ bs') (us @ us') = rxor (comb bs us) (comb bs' us')"
proof (induction bs arbitrary: us)
  case Nil
  then show ?case by simp
next
  case (Cons b bs)
  then show ?case by (cases us) (simp_all add: rxor_assoc)
qed

lemma comb_embed:
  assumes "e 0 = rzero" and "\<And>v w. e (v XOR w) = rxor (e v) (e w)"
  shows "comb bs (map e ws) = e (combw bs ws)"
  by (induction bs ws rule: combw.induct) (simp_all add: assms)

lemma bit_combw:
  fixes b :: u8
  shows "distinct js \<Longrightarrow>
   bit (combw (map (bit b) js) (map (\<lambda>j. push_bit j 1) js)) n \<longleftrightarrow> n \<in> set js \<and> bit b n"
proof (induction js)
  case Nil
  then show ?case by simp
next
  case (Cons j js)
  have "bit b j \<Longrightarrow> j < 8" using bit_imp_le_length [of b j] by simp
  with Cons show ?case
    by (auto simp: bit_simps)
qed

lemma byte_decomp: "combw (bits8 b) [1, 2, 4, 8, 16, 32, 64, 128] = b"
proof (rule bit_eqI)
  fix n
  have js: "[0, 1, 2, 3, 4, 5, 6, 7] = [0..<8]" by (simp add: upt_rec)
  have "bits8 b = map (bit b) [0..<8]" by (simp add: bits8_def js [symmetric])
  moreover have "[1, 2, 4, 8, 16, 32, 64, 128] = map (\<lambda>j. push_bit j (1 :: u8)) [0..<8]"
    by (simp add: js [symmetric])
  ultimately have "bit (combw (bits8 b) [1, 2, 4, 8, 16, 32, 64, 128]) n \<longleftrightarrow> n \<in> set [0..<8] \<and> bit b n"
    using bit_combw [of "[0..<8]" b n] by simp
  then show "bit (combw (bits8 b) [1, 2, 4, 8, 16, 32, 64, 128]) n \<longleftrightarrow> bit b n"
    by (auto dest: bit_imp_le_length)
qed

lemma comb_units8:
  assumes "e 0 = rzero" and "\<And>v w. e (v XOR w) = rxor (e v) (e w)"
  shows "comb (bits8 b) (units8 e) = e b"
proof -
  have "comb (bits8 b) (map e [1, 2, 4, 8, 16, 32, 64, 128])
      = e (combw (bits8 b) [1, 2, 4, 8, 16, 32, 64, 128])"
    using assms by (rule comb_embed)
  then show ?thesis by (simp add: units8_def byte_decomp)
qed

lemma vec_decomp: "comb (bits_of g) units = g"
proof -
  have l: "length (bits8 b) = length (units8 e)" for b e by (simp add: bits8_def units8_def)
  show ?thesis
    unfolding bits_of_def units_def
    by (simp add: comb_append l comb_units8 rxor_def rzero_def)
qed

lemma app_mat_of: "linear_map f \<Longrightarrow> app (mat_of f) g = f g"
  by (simp add: app_def mat_of_def comb_map vec_decomp)

lemma msq_mat_of: "linear_map f \<Longrightarrow> msq (mat_of f) = mat_of (f \<circ> f)"
  by (simp add: msq_def mat_of_def app_mat_of [unfolded mat_of_def])

lemma linear_funpow: "linear_map f \<Longrightarrow> linear_map (f ^^ n)"
  by (induction n) (simp_all add: linear_map_def)

lemma jump_correct:
  assumes "linear_map f"
  shows "jump k (mat_of (f ^^ m)) xs = map (\<lambda>(n, v). (f ^^ (m * (n mod 2 ^ k))) v) xs"
proof (induction k arbitrary: m xs)
  case 0
  then show ?case by (simp add: case_prod_beta)
next
  case (Suc k)
  have sq: "msq (mat_of (f ^^ m)) = mat_of (f ^^ (m + m))"
    by (simp add: msq_mat_of [OF linear_funpow [OF assms]] funpow_add)
  have ar: "m * (n mod 2 ^ Suc k) = (m + m) * (n div 2 mod 2 ^ k) + m * (n mod 2)" for n
    by (simp add: mod_mult2_eq algebra_simps)
  have "(f ^^ ((m + m) * (n div 2 mod 2 ^ k))) (if odd n then app (mat_of (f ^^ m)) v else v)
      = (f ^^ (m * (n mod 2 ^ Suc k))) v" for n v
    unfolding ar funpow_add
    by (simp add: app_mat_of [OF linear_funpow [OF assms]] odd_iff_mod_2_eq_one)
  then show ?case
    by (simp add: sq Suc.IH case_prod_beta del: power_Suc)
qed

lemma step_mat_eq: "mat_of rng_step = step_mat"
  by (simp add: mat_of_def units_def units8_def rng_step_def genRandom_def rzero_def step_mat_def)

lemma jump_numeral:
  "jump (numeral k) M xs =
     jump (pred_numeral k) (msq M) (map (\<lambda>(n, v). (n div 2, if odd n then app M v else v)) xs)"
  by (simp add: numeral_eq_Suc)

lemma jump_eval:
  "jump 32 step_mat
     [(4261412737, rng_seed), (33554431, rng_seed), (137464927, rng_seed), (7090537, rng_seed),
      (2366137, rng_seed)]
   = [rng_seed,
      \<lparr>rng_x = 233, rng_y = 157, rng_z = 16, rng_a = 236\<rparr>,
      \<lparr>rng_x = 196, rng_y = 25, rng_z = 234, rng_a = 152\<rparr>,
      \<lparr>rng_x = 157, rng_y = 49, rng_z = 237, rng_a = 37\<rparr>,
      \<lparr>rng_x = 23, rng_y = 245, rng_z = 52, rng_a = 138\<rparr>]"
  by (simp add: step_mat_def rng_seed_def jump_numeral msq_def app_def bits_of_def bits8_def
      rxor_def rzero_def)

lemma seed_powers:
  "(rng_step ^^ 4261412737) rng_seed = rng_seed"
  "(rng_step ^^ 33554431) rng_seed \<noteq> rng_seed"
  "(rng_step ^^ 137464927) rng_seed \<noteq> rng_seed"
  "(rng_step ^^ 7090537) rng_seed \<noteq> rng_seed"
  "(rng_step ^^ 2366137) rng_seed \<noteq> rng_seed"
proof -
  let ?xs = "[(4261412737, rng_seed), (33554431, rng_seed), (137464927, rng_seed),
    (7090537, rng_seed), (2366137, rng_seed)]"
  have "jump 32 (mat_of (rng_step ^^ 1)) ?xs
      = map (\<lambda>(n, v). (rng_step ^^ (1 * (n mod 2 ^ 32))) v) ?xs"
    by (rule jump_correct [OF rng_step_linear])
  then have "jump 32 step_mat ?xs
      = [(rng_step ^^ 4261412737) rng_seed, (rng_step ^^ 33554431) rng_seed,
         (rng_step ^^ 137464927) rng_seed, (rng_step ^^ 7090537) rng_seed,
         (rng_step ^^ 2366137) rng_seed]"
    by (simp add: step_mat_eq)
  then have e: "[(rng_step ^^ 4261412737) rng_seed, (rng_step ^^ 33554431) rng_seed,
         (rng_step ^^ 137464927) rng_seed, (rng_step ^^ 7090537) rng_seed,
         (rng_step ^^ 2366137) rng_seed]
      = [rng_seed,
      \<lparr>rng_x = 233, rng_y = 157, rng_z = 16, rng_a = 236\<rparr>,
      \<lparr>rng_x = 196, rng_y = 25, rng_z = 234, rng_a = 152\<rparr>,
      \<lparr>rng_x = 157, rng_y = 49, rng_z = 237, rng_a = 37\<rparr>,
      \<lparr>rng_x = 23, rng_y = 245, rng_z = 52, rng_a = 138\<rparr>]"
    by (simp only: jump_eval)
  from e show "(rng_step ^^ 4261412737) rng_seed = rng_seed" by simp
  from e show "(rng_step ^^ 33554431) rng_seed \<noteq> rng_seed" by (simp add: rng_seed_def)
  from e show "(rng_step ^^ 137464927) rng_seed \<noteq> rng_seed" by (simp add: rng_seed_def)
  from e show "(rng_step ^^ 7090537) rng_seed \<noteq> rng_seed" by (simp add: rng_seed_def)
  from e show "(rng_step ^^ 2366137) rng_seed \<noteq> rng_seed" by (simp add: rng_seed_def)
qed

lemma returns_mult: "(f ^^ d) x = x \<Longrightarrow> (f ^^ (d * q)) x = x"
  by (induction q) (simp_all add: funpow_add)

lemma returns_mod:
  assumes "(f ^^ d) x = x" and "(f ^^ n) x = x"
  shows "(f ^^ (n mod d)) x = x"
proof -
  have "(f ^^ n) x = (f ^^ (n mod d + d * (n div d))) x" by simp
  also have "\<dots> = (f ^^ (n mod d)) ((f ^^ (d * (n div d))) x)" by (simp only: funpow_add o_apply)
  also have "\<dots> = (f ^^ (n mod d)) x" by (simp only: returns_mult [OF assms(1)])
  finally show ?thesis using assms(2) by simp
qed

lemma least_return:
  assumes "0 < n" and "(f ^^ n) x = x"
  shows "\<exists>d. period_of f x d \<and> d dvd n"
proof -
  define d where "d = (LEAST k. 0 < k \<and> (f ^^ k) x = x)"
  have d: "0 < d \<and> (f ^^ d) x = x"
    unfolding d_def by (rule LeastI [of "\<lambda>k. 0 < k \<and> (f ^^ k) x = x" n]) (simp add: assms)
  have least: "\<not> (0 < k \<and> (f ^^ k) x = x)" if "k < d" for k
    using that unfolding d_def by (rule not_less_Least)
  have "(f ^^ (n mod d)) x = x" using d assms(2) by (simp add: returns_mod)
  moreover have "n mod d < d" using d by simp
  ultimately have "n mod d = 0" using least [of "n mod d"] by auto
  then have "d dvd n" by auto
  with d least show ?thesis by (auto simp: period_of_def)
qed

lemma prime_like:
  fixes n b :: nat
  assumes pos: "0 < n" and bound: "n < b * b" and nodiv: "\<forall>k \<in> set [2..<b]. \<not> k dvd n"
    and d: "d dvd n"
  shows "d = 1 \<or> d = n"
proof -
  have small: "k = 1" if "k dvd n" "k < b" for k
  proof -
    from that(1) pos have "k \<noteq> 0" by auto
    moreover have "\<not> 2 \<le> k" using nodiv that by auto
    ultimately show ?thesis by simp
  qed
  from d obtain e where e: "n = d * e" by (auto simp: dvd_def)
  show ?thesis
  proof (cases "d < b")
    case True
    with small [OF d] show ?thesis by simp
  next
    case False
    have "e < b"
    proof (rule ccontr)
      assume "\<not> e < b"
      with False have "b * b \<le> d * e" by (simp add: mult_le_mono)
      with bound e show False by simp
    qed
    moreover have "e dvd n" using e by simp
    ultimately have "e = 1" by (rule small [rotated])
    with e show ?thesis by simp
  qed
qed

lemma prime_like_31: "d dvd 31 \<Longrightarrow> d = 1 \<or> d = 31" for d :: nat
  by (rule prime_like [of 31 6]) (simp_all add: upt_rec)

lemma prime_like_127: "d dvd 127 \<Longrightarrow> d = 1 \<or> d = 127" for d :: nat
  by (rule prime_like [of 127 12]) (simp_all add: upt_rec)

lemma prime_like_601: "d dvd 601 \<Longrightarrow> d = 1 \<or> d = 601" for d :: nat
  by (rule prime_like [of 601 25]) (simp_all add: upt_rec)

lemma prime_like_1801: "d dvd 1801 \<Longrightarrow> d = 1 \<or> d = 1801" for d :: nat
  by (rule prime_like [of 1801 43]) (simp_all add: upt_rec)

lemma prime_cover:
  fixes m :: nat
  assumes "m dvd 127 * (31 * (601 * 1801))" and "m \<noteq> 1"
  shows "127 dvd m \<or> 31 dvd m \<or> 601 dvd m \<or> 1801 dvd m"
proof -
  from assms(1) obtain a r where 1: "m = a * r" "a dvd 127" "r dvd 31 * (601 * 1801)"
    by (rule dvd_productE)
  from 1(3) obtain b r2 where 2: "r = b * r2" "b dvd 31" "r2 dvd 601 * 1801"
    by (rule dvd_productE)
  from 2(3) obtain c e where 3: "r2 = c * e" "c dvd 601" "e dvd 1801"
    by (rule dvd_productE)
  from prime_like_127 [OF 1(2)] prime_like_31 [OF 2(2)] prime_like_601 [OF 3(2)]
    prime_like_1801 [OF 3(3)] assms(2) 1(1) 2(1) 3(1)
  show ?thesis by auto
qed

lemma seed_period: "period_of rng_step rng_seed 4261412737"
proof -
  have ret: "(rng_step ^^ 4261412737) rng_seed = rng_seed" by (rule seed_powers(1))
  from least_return [of 4261412737 rng_step rng_seed, OF _ ret]
  obtain d where d: "period_of rng_step rng_seed d" "d dvd 4261412737" by auto
  then obtain m where m: "4261412737 = d * m" by (auto simp: dvd_def)
  from d(1) have dret: "(rng_step ^^ d) rng_seed = rng_seed" by (simp add: period_of_def)
  have "m = 1"
  proof (rule ccontr)
    assume m1: "m \<noteq> 1"
    have "m dvd d * m" by simp
    then have "m dvd 4261412737" by (simp only: m [symmetric])
    then have "m dvd 127 * (31 * (601 * 1801))" by simp
    from prime_cover [OF this m1] consider "127 dvd m" | "31 dvd m" | "601 dvd m" | "1801 dvd m"
      by blast
    then show False
    proof cases
      case 1
      then obtain r where "m = 127 * r" by (auto simp: dvd_def)
      with m have "33554431 = d * r" by simp
      with returns_mult [OF dret, of r] seed_powers(2) show False by simp
    next
      case 2
      then obtain r where "m = 31 * r" by (auto simp: dvd_def)
      with m have "137464927 = d * r" by simp
      with returns_mult [OF dret, of r] seed_powers(3) show False by simp
    next
      case 3
      then obtain r where "m = 601 * r" by (auto simp: dvd_def)
      with m have "7090537 = d * r" by simp
      with returns_mult [OF dret, of r] seed_powers(4) show False by simp
    next
      case 4
      then obtain r where "m = 1801 * r" by (auto simp: dvd_def)
      with m have "2366137 = d * r" by simp
      with returns_mult [OF dret, of r] seed_powers(5) show False by simp
    qed
  qed
  with m d(1) show ?thesis by simp
qed

lemma rng_outputs_numeral:
  "rng_outputs (numeral k) g
     = fst (genRandom g) # rng_outputs (pred_numeral k) (snd (genRandom g))"
  by (simp add: numeral_eq_Suc)

lemma funpow_rzero: "(rng_step ^^ k) rzero = rzero"
  using linear_funpow [OF rng_step_linear, of k] by (simp add: linear_map_def)

lemma seed_never_zero: "(rng_step ^^ n) rng_seed \<noteq> rzero"
proof
  assume z: "(rng_step ^^ n) rng_seed = rzero"
  let ?N = "4261412737 * Suc n"
  have "(rng_step ^^ ?N) rng_seed = rng_seed"
    by (rule returns_mult [OF seed_powers(1)])
  moreover have "?N = (?N - n) + n" by simp
  then have "(rng_step ^^ ?N) rng_seed = (rng_step ^^ (?N - n)) ((rng_step ^^ n) rng_seed)"
    by (metis funpow_add o_apply)
  ultimately have "rng_seed = rzero" by (simp add: z funpow_rzero)
  then show False by (simp add: rng_seed_def rzero_def)
qed

text \<open>
  C3, as the code has it. One call of \<^verbatim>\<open>genRandom\<close> computes
  \<^verbatim>\<open>t = x ^ (x << 4)\<close>, moves \<^verbatim>\<open>y, z, a\<close> down to \<^verbatim>\<open>x, y, z\<close>, sets
  \<^verbatim>\<open>a = z ^ t ^ (z >> 1) ^ (t << 1)\<close> with the new \<^verbatim>\<open>z\<close> and returns it. From the seed
  (0, 0, 0, 86) the outputs are fixed; the first eight are 125, 67, 98, 9, 250, 18, 221, 24.
  The sequence of states comes back to the seed after 4261412737 = (2^7 - 1) * (2^25 - 1)
  steps and not earlier, and no state of it is the state with all four bytes zero.
\<close>

theorem genRandom_sequence:
  "genRandom \<lparr>rng_x = x, rng_y = y, rng_z = z, rng_a = a\<rparr>
     = (a XOR (x XOR push_bit 4 x) XOR drop_bit 1 a XOR push_bit 1 (x XOR push_bit 4 x),
        \<lparr>rng_x = y, rng_y = z, rng_z = a,
         rng_a = a XOR (x XOR push_bit 4 x) XOR drop_bit 1 a XOR push_bit 1 (x XOR push_bit 4 x)\<rparr>)
   \<and> rng_seed = \<lparr>rng_x = 0, rng_y = 0, rng_z = 0, rng_a = 86\<rparr>
   \<and> rng_outputs 8 rng_seed = [125, 67, 98, 9, 250, 18, 221, 24]
   \<and> period_of rng_step rng_seed 4261412737
   \<and> (\<forall>n. (rng_step ^^ n) rng_seed \<noteq> rzero)"
proof -
  have 1: "genRandom \<lparr>rng_x = x, rng_y = y, rng_z = z, rng_a = a\<rparr>
     = (a XOR (x XOR push_bit 4 x) XOR drop_bit 1 a XOR push_bit 1 (x XOR push_bit 4 x),
        \<lparr>rng_x = y, rng_y = z, rng_z = a,
         rng_a = a XOR (x XOR push_bit 4 x) XOR drop_bit 1 a XOR push_bit 1 (x XOR push_bit 4 x)\<rparr>)"
    unfolding genRandom_def Let_def by simp
  have 2: "rng_outputs 8 rng_seed = [125, 67, 98, 9, 250, 18, 221, 24]"
    by (simp add: rng_outputs_numeral genRandom_def rng_seed_def Let_def)
  from 1 2 seed_period seed_never_zero show ?thesis
    by (simp add: rng_seed_def)
qed

theorem genRandom_sequence_witness:
  "(0::nat) < 1 \<and> (1::nat) < 4261412737 \<and> (rng_step ^^ 1) rng_seed \<noteq> rng_seed
   \<and> (rng_step ^^ 4261412737) rng_seed = rng_seed"
proof -
  from genRandom_sequence [of 0 0 0 86]
  have "period_of rng_step rng_seed 4261412737" by simp
  then have "(rng_step ^^ 4261412737) rng_seed = rng_seed"
    and "0 < (1::nat) \<and> (1::nat) < 4261412737 \<longrightarrow> (rng_step ^^ 1) rng_seed \<noteq> rng_seed"
    unfolding period_of_def by blast+
  then show ?thesis by simp
qed

text \<open>
  The claim as it is written fails: the period is not \<open>2^32 - 1\<close>, because the state is
  back at the seed already after 4261412737 steps.
\<close>

theorem genRandom_period_counterexample:
  "\<not> period_of rng_step rng_seed (2 ^ 32 - 1)"
proof
  assume "period_of rng_step rng_seed (2 ^ 32 - 1)"
  then have "(rng_step ^^ 4261412737) rng_seed \<noteq> rng_seed"
    unfolding period_of_def by simp
  with seed_powers(1) show False by simp
qed

end
